theory Spec2Isabelle
  imports Complex_Main "HOL-Library.AList" "HOL-Library.Multiset"
begin

text \<open>
  The template compiler of instrux (\<^verbatim>\<open>compiler.ts\<close>, \<^verbatim>\<open>frontmatter.ts\<close>,
  \<^verbatim>\<open>types.ts\<close>): the source index with its tag buckets, the sort of a bucket,
  the recursive compilation of a file with its compile stack, and the assembly
  of the output. The libraries that the source calls (Handlebars, gray-matter,
  fast-glob, the path and file-system modules, the collation of strings, the
  conversion between numbers and strings) are parameters of the model.
\<close>

section \<open>Data model (types.ts)\<close>

text \<open>
  JavaScript numbers: the finite doubles, each of them a rational number, the
  two infinities and \<^verbatim>\<open>NaN\<close>. The two zeros are one value here; the compiler
  compares, subtracts and prints numbers, and none of these tells them apart.
\<close>

datatype jsnum = Finite rat | PosInf | NegInf | NaN

text \<open>
  Parsed YAML values. A frontmatter block is a JavaScript object
  (\<^verbatim>\<open>Record<string, any>\<close>): an association list in key insertion order. The
  values are null, booleans, numbers, strings, lists of strings and nested
  objects.
\<close>

datatype yaml =
    YNull
  | YBool bool
  | YNum jsnum
  | YStr string
  | YList "string list"
  | YMap "(string \<times> yaml) list"

type_synonym frontmatter = "(string \<times> yaml) list"

text \<open>\<^verbatim>\<open>interface SourceFile { path; frontmatter; instrux; content }\<close>\<close>

record SourceFile =
  path :: string
  frontmatter :: frontmatter
  instrux :: yaml
  content :: string

text \<open>
  \<^verbatim>\<open>interface SourceIndex { files; tags: Map; paths: Map }\<close>. A JavaScript
  \<^verbatim>\<open>Map\<close> keeps its keys in insertion order and \<^verbatim>\<open>set\<close> on an existing key
  replaces the value in place, which is \<open>AList.update\<close> on an association list;
  \<^verbatim>\<open>get\<close> is \<open>map_of\<close>.
\<close>

record SourceIndex =
  files :: "SourceFile list"
  tags :: "(string \<times> SourceFile list) list"
  paths :: "(string \<times> SourceFile) list"

datatype FrontmatterOutput = strip | preserve

text \<open>
  The fields of \<^verbatim>\<open>AgentConfig\<close> that the compiler reads. \<^verbatim>\<open>entry\<close>,
  \<^verbatim>\<open>sources\<close> and \<^verbatim>\<open>frontmatter\<close> are optional in the declaration;
  \<open>addSeparators\<close> and \<open>separatorStyle\<close> are the two members of
  \<^verbatim>\<open>mergeSettings\<close> used by the helpers.
\<close>

record AgentConfig =
  name :: string
  description :: string
  entry :: "string option"
  sources :: "string list option"
  frontmatter_output :: "FrontmatterOutput option"
  addSeparators :: bool
  separatorStyle :: string

section \<open>Templates\<close>

text \<open>
  The content of a file is a Handlebars template. Handlebars itself is a
  library; its parser is a parameter (\<open>hbs_parse\<close> below), total on strings (a
  template that Handlebars rejects is not modelled), that yields the text and
  the directives the compiler registers helpers for:
  \<^item> \<open>Text s\<close>: literal text;
  \<^item> \<open>TagInc t\<close>: \<^verbatim>\<open>{{tag "t"}}\<close>;
  \<^item> \<open>FileInc p\<close>: \<^verbatim>\<open>{{file "p"}}\<close>;
  \<^item> \<open>MetaKey k\<close>: \<^verbatim>\<open>{{meta "k"}}\<close>;
  \<^item> \<open>Var [a, b]\<close>: the path expression \<^verbatim>\<open>{{a.b}}\<close>, looked up in the current
    context;
  \<^item> \<open>EachTagged t body\<close>: \<^verbatim>\<open>{{#each (tagged "t")}} body {{/each}}\<close>.
\<close>

datatype node =
    Text string
  | TagInc string
  | FileInc string
  | MetaKey string
  | Var "string list"
  | EachTagged string "node list"

section \<open>The environment of a compilation\<close>

text \<open>
  The library functions the source calls and the file system it reads:
  \<^item> \<open>hbs_parse\<close>: \<^verbatim>\<open>Handlebars.compile(content)\<close>, as the directive list;
  \<^item> \<open>matter\<close>: \<^verbatim>\<open>matter(raw)\<close> of gray-matter, giving \<^verbatim>\<open>data\<close> and \<^verbatim>\<open>content\<close>;
  \<^item> \<open>stringify\<close>: \<^verbatim>\<open>matter.stringify('', data)\<close>;
  \<^item> \<open>localeCompare\<close>: \<^verbatim>\<open>a.localeCompare(b)\<close>, the collation of the runtime's
    locale;
  \<^item> \<open>numberToString\<close>: \<^verbatim>\<open>String(n)\<close> for a number \<open>n\<close>;
  \<^item> \<open>stringToNumber\<close>: \<^verbatim>\<open>Number(s)\<close> for a string \<open>s\<close>;
  \<^item> \<open>basename_md\<close>: \<^verbatim>\<open>path.basename(p, '.md')\<close>;
  \<^item> \<open>path_join\<close>: \<^verbatim>\<open>path.join(rootDir, p)\<close>;
  \<^item> \<open>fg\<close>: the fast-glob call of \<^verbatim>\<open>buildSourceIndex\<close> (root directory and
    patterns to matched relative paths);
  \<^item> \<open>disk\<close>: what is on disk, by absolute path: a regular file with its text,
    or a directory.
\<close>

datatype dirent = RegularFile string | Directory

record ext =
  hbs_parse :: "string \<Rightarrow> node list"
  matter :: "string \<Rightarrow> frontmatter \<times> string"
  stringify :: "frontmatter \<Rightarrow> string"
  localeCompare :: "string \<Rightarrow> string \<Rightarrow> int"
  numberToString :: "jsnum \<Rightarrow> string"
  stringToNumber :: "string \<Rightarrow> jsnum"
  basename_md :: "string \<Rightarrow> string"
  path_join :: "string \<Rightarrow> string \<Rightarrow> string"
  fg :: "string \<Rightarrow> string list \<Rightarrow> string list"
  disk :: "(string \<times> dirent) list"

text \<open>
  Errors thrown by the compiler. The circular-reference error carries the
  chain that the source joins with an arrow into its message; \<open>ReadError\<close> is
  the failure of \<^verbatim>\<open>fs.readFile\<close> in \<^verbatim>\<open>buildSourceIndex\<close> and of
  \<^verbatim>\<open>fs.readFileSync\<close> in \<^verbatim>\<open>compileFile\<close> (the path is missing or a directory);
  \<open>TypeError\<close> is what \<^verbatim>\<open>for (const tag of instrux.tags)\<close> throws when the value
  is not iterable.
\<close>

datatype error =
    NoEntry
  | NoSources
  | CircularReference "string list"
  | FileNotFound string
  | ReadError string
  | TypeError

section \<open>JavaScript primitives\<close>

text \<open>\<^verbatim>\<open>s.replace(/\\/g, '/')\<close>\<close>

definition normalise :: "string \<Rightarrow> string" where
  "normalise s = map (\<lambda>c. if c = CHR 0x5C then CHR ''/'' else c) s"

text \<open>\<^verbatim>\<open>s.endsWith('\n')\<close>\<close>

definition endsWithNewline :: "string \<Rightarrow> bool" where
  "endsWithNewline s = (s \<noteq> [] \<and> last s = CHR 0x0A)"

text \<open>\<^verbatim>\<open>s.trimEnd()\<close>, for the white space of the ASCII range.\<close>

definition isSpace :: "char \<Rightarrow> bool" where
  "isSpace c = (c \<in> {CHR '' '', CHR 0x09, CHR 0x0A, CHR 0x0B, CHR 0x0C, CHR 0x0D})"

definition trimEnd :: "string \<Rightarrow> string" where
  "trimEnd s = rev (dropWhile isSpace (rev s))"

text \<open>\<^verbatim>\<open>xs.join(sep)\<close>\<close>

fun join :: "string \<Rightarrow> string list \<Rightarrow> string" where
  "join sep [] = []"
| "join sep [x] = x"
| "join sep (x # y # ys) = x @ sep @ join sep (y # ys)"

text \<open>A \<^verbatim>\<open>Set\<close> of strings in insertion order: \<^verbatim>\<open>add\<close> and \<^verbatim>\<open>delete\<close>.\<close>

definition set_add :: "string \<Rightarrow> string list \<Rightarrow> string list" where
  "set_add x xs = (if x \<in> set xs then xs else xs @ [x])"

definition set_delete :: "string \<Rightarrow> string list \<Rightarrow> string list" where
  "set_delete x xs = removeAll x xs"

text \<open>The decimal digits of a natural number: the form of an array index as a
  property key.\<close>

fun digits :: "nat \<Rightarrow> string" where
  "digits n = (if n < 10 then [char_of (48 + n)] else digits (n div 10) @ [char_of (48 + n mod 10)])"

text \<open>
  The own property \<open>k\<close> of a value; \<open>None\<close> is \<^verbatim>\<open>undefined\<close>. An object has its
  keys; a string and an array have \<^verbatim>\<open>length\<close> and their indices; the other
  values have no own property. This is what Handlebars resolves for a path
  segment (\<^verbatim>\<open>lookupProperty\<close> answers own properties only). It is also the
  result of the reads \<^verbatim>\<open>instrux.tags\<close>, \<^verbatim>\<open>instrux.order\<close> and
  \<^verbatim>\<open>instrux.description\<close> of the source: JavaScript looks an absent key up in
  the prototype of the value, and no built-in prototype has a member named
  \<^verbatim>\<open>tags\<close>, \<^verbatim>\<open>order\<close> or \<^verbatim>\<open>description\<close>.
\<close>

definition getProp :: "yaml \<Rightarrow> string \<Rightarrow> yaml option" where
  "getProp v k =
     (case v of
        YMap m \<Rightarrow> map_of m k
      | YStr s \<Rightarrow>
          (if k = ''length'' then Some (YNum (Finite (of_nat (length s))))
           else map_option (\<lambda>i. YStr [s ! i]) (find (\<lambda>i. digits i = k) [0..<length s]))
      | YList xs \<Rightarrow>
          (if k = ''length'' then Some (YNum (Finite (of_nat (length xs))))
           else map_option (\<lambda>i. YStr (xs ! i)) (find (\<lambda>i. digits i = k) [0..<length xs]))
      | _ \<Rightarrow> None)"

text \<open>\<^verbatim>\<open>a ?? b\<close>: the right operand when the left one is null or undefined.\<close>

definition orElse :: "yaml option \<Rightarrow> yaml \<Rightarrow> yaml" where
  "orElse a b = (case a of None \<Rightarrow> b | Some YNull \<Rightarrow> b | Some v \<Rightarrow> v)"

text \<open>\<^verbatim>\<open>String(v)\<close>: how a value is appended to a string.\<close>

definition toString :: "ext \<Rightarrow> yaml \<Rightarrow> string" where
  "toString X v = (case v of
       YNull \<Rightarrow> ''null''
     | YBool b \<Rightarrow> (if b then ''true'' else ''false'')
     | YNum n \<Rightarrow> numberToString X n
     | YStr s \<Rightarrow> s
     | YList xs \<Rightarrow> join '','' xs
     | YMap m \<Rightarrow> ''[object Object]'')"

text \<open>
  \<^verbatim>\<open>Number(v)\<close>, the conversion that \<^verbatim>\<open>a - b\<close> applies to its operands: an
  array converts through its string \<^verbatim>\<open>xs.join(',')\<close>, an object through
  \<^verbatim>\<open>[object Object]\<close>, which is not a number.
\<close>

definition toNumber :: "ext \<Rightarrow> yaml \<Rightarrow> jsnum" where
  "toNumber X v = (case v of
       YNull \<Rightarrow> Finite 0
     | YBool b \<Rightarrow> Finite (if b then 1 else 0)
     | YNum n \<Rightarrow> n
     | YStr s \<Rightarrow> stringToNumber X s
     | YList xs \<Rightarrow> stringToNumber X (join '','' xs)
     | YMap m \<Rightarrow> NaN)"

text \<open>
  The sign of \<^verbatim>\<open>a - b\<close> for two numbers, with 0 also where the difference is
  \<^verbatim>\<open>NaN\<close>: the difference is the result of a sort comparator, of which
  \<^verbatim>\<open>Array.prototype.sort\<close> reads the sign and reads \<^verbatim>\<open>NaN\<close> as 0. The
  difference of two finite doubles has the sign of their exact difference.
\<close>

fun subtractSign :: "jsnum \<Rightarrow> jsnum \<Rightarrow> int" where
  "subtractSign NaN b = 0"
| "subtractSign a NaN = 0"
| "subtractSign PosInf PosInf = 0"
| "subtractSign NegInf NegInf = 0"
| "subtractSign PosInf b = 1"
| "subtractSign a PosInf = - 1"
| "subtractSign NegInf b = - 1"
| "subtractSign a NegInf = 1"
| "subtractSign (Finite x) (Finite y) = (if x < y then - 1 else if y < x then 1 else 0)"

text \<open>
  \<^verbatim>\<open>a === b\<close>. Two arrays or two objects are equal when they are the same
  object, which the caller says (\<open>same\<close>); \<^verbatim>\<open>NaN\<close> is not equal to itself.
\<close>

fun strictEquals :: "bool \<Rightarrow> yaml \<Rightarrow> yaml \<Rightarrow> bool" where
  "strictEquals same YNull YNull = True"
| "strictEquals same (YBool x) (YBool y) = (x = y)"
| "strictEquals same (YNum x) (YNum y) = (x \<noteq> NaN \<and> x = y)"
| "strictEquals same (YStr x) (YStr y) = (x = y)"
| "strictEquals same (YList x) (YList y) = same"
| "strictEquals same (YMap x) (YMap y) = same"
| "strictEquals same a b = False"

text \<open>The truth value of a value in a condition: \<^verbatim>\<open>if (v)\<close>.\<close>

definition truthy :: "yaml \<Rightarrow> bool" where
  "truthy v = (case v of
       YNull \<Rightarrow> False
     | YBool b \<Rightarrow> b
     | YNum n \<Rightarrow> n \<noteq> Finite 0 \<and> n \<noteq> NaN
     | YStr s \<Rightarrow> s \<noteq> []
     | YList xs \<Rightarrow> True
     | YMap m \<Rightarrow> True)"

text \<open>
  The elements that \<^verbatim>\<open>for (const x of v)\<close> visits: those of an array, the
  characters of a string (each as a string of its own); \<open>None\<close> when the value
  is not iterable and the loop throws.
\<close>

definition iterate :: "yaml \<Rightarrow> string list option" where
  "iterate v = (case v of
       YStr s \<Rightarrow> Some (map (\<lambda>c. [c]) s)
     | YList xs \<Rightarrow> Some xs
     | _ \<Rightarrow> None)"

section \<open>frontmatter.ts\<close>

text \<open>
  The tags that \<^verbatim>\<open>buildSourceIndex\<close> files a source file under:
  \<^verbatim>\<open>if (instrux.tags) { for (const tag of instrux.tags) ... }\<close>. Nothing when the
  value is absent or falsy, its elements when it is truthy and iterable, and
  a type error when it is truthy and not iterable.
\<close>

definition instrux_tags :: "yaml \<Rightarrow> error + string list" where
  "instrux_tags ix =
     (case getProp ix ''tags'' of
        None \<Rightarrow> Inr []
      | Some v \<Rightarrow>
          if truthy v
          then (case iterate v of None \<Rightarrow> Inl TypeError | Some ts \<Rightarrow> Inr ts)
          else Inr [])"

text \<open>\<^verbatim>\<open>x.instrux.order ?? 999\<close>: whatever value the field has, or the number
  999 when it is absent or null.\<close>

definition instrux_order :: "yaml \<Rightarrow> yaml" where
  "instrux_order ix = orElse (getProp ix ''order'') (YNum (Finite 999))"

text \<open>\<^verbatim>\<open>const instrux = frontmatter.instrux ?? {}\<close> and the \<^verbatim>\<open>sourceFile\<close> literal.\<close>

definition mkSourceFile :: "ext \<Rightarrow> string \<Rightarrow> string \<Rightarrow> SourceFile" where
  "mkSourceFile X relPath raw =
     (let (fm, body) = matter X raw
      in \<lparr> path = normalise relPath,
           frontmatter = fm,
           instrux = orElse (map_of fm ''instrux'') (YMap []),
           content = body \<rparr>)"

text \<open>The inner loop \<^verbatim>\<open>for (const tag of instrux.tags)\<close>: push the file onto
  the tag's bucket.\<close>

fun addTags :: "SourceFile \<Rightarrow> string list \<Rightarrow> (string \<times> SourceFile list) list
    \<Rightarrow> (string \<times> SourceFile list) list" where
  "addTags sf [] tgs = tgs"
| "addTags sf (tag # rest) tgs =
     (let bucket = (case map_of tgs tag of Some b \<Rightarrow> b | None \<Rightarrow> [])
      in addTags sf rest (AList.update tag (bucket @ [sf]) tgs))"

text \<open>The loop \<^verbatim>\<open>for (const relPath of matched)\<close>; a file that cannot be read,
  or whose tags cannot be iterated, aborts the build.\<close>

fun indexLoop :: "ext \<Rightarrow> string \<Rightarrow> string list \<Rightarrow> SourceIndex \<Rightarrow> error + SourceIndex" where
  "indexLoop X dir [] idx = Inr idx"
| "indexLoop X dir (relPath # rest) idx =
     (let absPath = path_join X dir relPath in
      case map_of (disk X) absPath of
        None \<Rightarrow> Inl (ReadError absPath)
      | Some Directory \<Rightarrow> Inl (ReadError absPath)
      | Some (RegularFile raw) \<Rightarrow>
          (let sourceFile = mkSourceFile X relPath raw in
           case instrux_tags (instrux sourceFile) of
             Inl e \<Rightarrow> Inl e
           | Inr ts \<Rightarrow>
               indexLoop X dir rest
                 \<lparr> files = files idx @ [sourceFile],
                   tags = addTags sourceFile ts (tags idx),
                   paths = AList.update (path sourceFile) sourceFile (paths idx) \<rparr>))"

definition buildSourceIndex :: "ext \<Rightarrow> string \<Rightarrow> string list \<Rightarrow> error + SourceIndex" where
  "buildSourceIndex X dir sourcePatterns =
     indexLoop X dir (fg X dir sourcePatterns) \<lparr> files = [], tags = [], paths = [] \<rparr>"

text \<open>
  The comparator of \<^verbatim>\<open>sortSourceFiles\<close>:
  \<^verbatim>\<open>if (oa !== ob) return oa - ob; return a.path.localeCompare(b.path)\<close>. The
  result is given by its sign (see \<open>subtractSign\<close>). Two files are the same
  object when they are equal: a path names one file of the index.
\<close>

definition compareSourceFiles :: "ext \<Rightarrow> SourceFile \<Rightarrow> SourceFile \<Rightarrow> int" where
  "compareSourceFiles X a b =
     (let oa = instrux_order (instrux a); ob = instrux_order (instrux b)
      in if \<not> strictEquals (a = b) oa ob
         then subtractSign (toNumber X oa) (toNumber X ob)
         else localeCompare X (path a) (path b))"

text \<open>
  \<^verbatim>\<open>[...files].sort(cmp)\<close>. \<^verbatim>\<open>Array.prototype.sort\<close> is stable; insertion from
  the right, placing an element before the first one it does not exceed, is
  the stable sort by a comparator. (For a comparator that is not consistent,
  as the one above is when an order field is not a number, ECMAScript leaves
  the order to the implementation; the list below is then one of the orders
  it allows.)
\<close>

fun insertBy :: "('a \<Rightarrow> 'a \<Rightarrow> int) \<Rightarrow> 'a \<Rightarrow> 'a list \<Rightarrow> 'a list" where
  "insertBy cmp x [] = [x]"
| "insertBy cmp x (y # ys) = (if cmp x y \<le> 0 then x # y # ys else y # insertBy cmp x ys)"

fun array_sort :: "('a \<Rightarrow> 'a \<Rightarrow> int) \<Rightarrow> 'a list \<Rightarrow> 'a list" where
  "array_sort cmp [] = []"
| "array_sort cmp (x # xs) = insertBy cmp x (array_sort cmp xs)"

definition sortSourceFiles :: "ext \<Rightarrow> SourceFile list \<Rightarrow> SourceFile list" where
  "sortSourceFiles X fs = array_sort (compareSourceFiles X) fs"

text \<open>\<^verbatim>\<open>const { instrux, ...rest } = frontmatter; return rest\<close>\<close>

definition stripInstruxMeta :: "frontmatter \<Rightarrow> frontmatter" where
  "stripInstruxMeta fm = filter (\<lambda>(k, v). k \<noteq> ''instrux'') fm"

text \<open>\<^verbatim>\<open>serializeFrontmatter\<close>: the empty string for an object without keys.\<close>

definition serializeFrontmatter :: "ext \<Rightarrow> frontmatter \<Rightarrow> string" where
  "serializeFrontmatter X data =
     (if length (map fst data) = 0 then []
      else trimEnd (stringify X data) @ [CHR 0x0A, CHR 0x0A])"

section \<open>The compiler (class InstruxCompiler)\<close>

text \<open>The immutable fields of the class, and its three mutable sets.\<close>

record compiler =
  rootDir :: string
  config :: AgentConfig
  index :: SourceIndex

record cstate =
  compileStack :: "string list"
  compiledFiles :: "string list"
  tagsUsed :: "string list"

text \<open>\<^verbatim>\<open>CompileResult\<close>\<close>

record CompileResult =
  outputText :: string
  filesCompiled :: nat
  tagsUsedList :: "string list"

text \<open>The separator of \<^verbatim>\<open>registerHelpers\<close>.\<close>

definition sep :: "AgentConfig \<Rightarrow> string" where
  "sep cfg = (if addSeparators cfg
              then [CHR 0x0A] @ separatorStyle cfg @ [CHR 0x0A, CHR 0x0A]
              else [CHR 0x0A, CHR 0x0A])"

text \<open>The context object \<^verbatim>\<open>{ agent: { name, description }, meta }\<close> passed to
  the template.\<close>

definition rootContext :: "compiler \<Rightarrow> frontmatter \<Rightarrow> yaml" where
  "rootContext C fm =
     YMap [(''agent'', YMap [(''name'', YStr (name (config C))),
                             (''description'', YStr (description (config C)))]),
           (''meta'', YMap fm)]"

text \<open>
  What a helper can return besides data: a member that an object inherits
  from \<^verbatim>\<open>Object.prototype\<close>, which is a built-in function (given by its name) or,
  for \<^verbatim>\<open>__proto__\<close>, the prototype object itself.
\<close>

datatype jsval = Data yaml | NativeFunction string | ObjectPrototype

text \<open>The members of \<^verbatim>\<open>Object.prototype\<close>, by name.\<close>

definition objectPrototype :: "string \<Rightarrow> jsval option" where
  "objectPrototype k =
     (if k = ''constructor'' then Some (NativeFunction ''Object'')
      else if k = ''__proto__'' then Some ObjectPrototype
      else if k \<in> set [''__defineGetter__'', ''__defineSetter__'', ''hasOwnProperty'',
                        ''__lookupGetter__'', ''__lookupSetter__'', ''isPrototypeOf'',
                        ''propertyIsEnumerable'', ''toString'', ''valueOf'', ''toLocaleString'']
      then Some (NativeFunction k)
      else None)"

text \<open>A path expression against a context: Handlebars follows the segments
  through own properties and stops at null and undefined.\<close>

fun lookupPath :: "yaml \<Rightarrow> string list \<Rightarrow> yaml option" where
  "lookupPath v [] = Some v"
| "lookupPath v (k # ks) = (case getProp v k of None \<Rightarrow> None | Some w \<Rightarrow> lookupPath w ks)"

text \<open>The text the engine appends for the value of an expression (escaping is
  off): nothing for null and undefined, and \<^verbatim>\<open>String(v)\<close> otherwise.\<close>

definition emitValue :: "ext \<Rightarrow> jsval \<Rightarrow> string" where
  "emitValue X v = (case v of
       Data YNull \<Rightarrow> []
     | Data d \<Rightarrow> toString X d
     | NativeFunction f \<Rightarrow> ''function '' @ f @ ''() { [native code] }''
     | ObjectPrototype \<Rightarrow> ''[object Object]'')"

definition emit :: "ext \<Rightarrow> yaml option \<Rightarrow> string" where
  "emit X r = (case r of None \<Rightarrow> [] | Some v \<Rightarrow> emitValue X (Data v))"

text \<open>
  The \<^verbatim>\<open>meta\<close> helper: \<^verbatim>\<open>options.data?.root?.meta?.[key] ?? ''\<close>, where \<open>meta\<close>
  is the metadata object of the root context. The read \<^verbatim>\<open>meta[key]\<close> finds an
  own key of the object and otherwise the member of that name that the object
  inherits from \<^verbatim>\<open>Object.prototype\<close>.
\<close>

definition metaHelper :: "frontmatter \<Rightarrow> string \<Rightarrow> jsval" where
  "metaHelper meta key =
     (case map_of meta key of
        Some YNull \<Rightarrow> Data (YStr [])
      | Some v \<Rightarrow> Data v
      | None \<Rightarrow> (case objectPrototype key of Some m \<Rightarrow> m | None \<Rightarrow> Data (YStr [])))"

text \<open>
  The object literal built by the \<^verbatim>\<open>tagged\<close> helper for one file. The reads
  \<^verbatim>\<open>f.frontmatter.title\<close> and \<^verbatim>\<open>f.frontmatter.description\<close> find own keys only:
  \<^verbatim>\<open>Object.prototype\<close> has no member of these names.
\<close>

definition taggedItem :: "ext \<Rightarrow> SourceFile \<Rightarrow> string \<Rightarrow> yaml" where
  "taggedItem X f compiled =
     YMap [(''body'', YStr compiled),
           (''raw'', YStr (content f)),
           (''path'', YStr (path f)),
           (''title'', orElse (map_of (frontmatter f) ''title'') (YStr (basename_md X (path f)))),
           (''description'', orElse (map_of (frontmatter f) ''description'')
                               (orElse (getProp (instrux f) ''description'') (YStr []))),
           (''frontmatter'', YMap (frontmatter f)),
           (''instrux'', instrux f)]"

text \<open>
  The content step of \<^verbatim>\<open>compileFile\<close>: the indexed file's content and
  frontmatter, or the content of the file read from disk together with the
  empty object (\<^verbatim>\<open>indexed?.frontmatter ?? {}\<close>), or the file-not-found error
  when nothing exists at the path. A directory exists, and reading it fails.
\<close>

definition resolveContent :: "ext \<Rightarrow> compiler \<Rightarrow> string \<Rightarrow> error + string \<times> frontmatter" where
  "resolveContent X C normalised =
     (case map_of (paths (index C)) normalised of
        Some indexed \<Rightarrow> Inr (content indexed, frontmatter indexed)
      | None \<Rightarrow>
          (let absPath = path_join X (rootDir C) normalised in
           case map_of (disk X) absPath of
             None \<Rightarrow> Inl (FileNotFound normalised)
           | Some Directory \<Rightarrow> Inl (ReadError absPath)
           | Some (RegularFile raw) \<Rightarrow> Inr (snd (matter X raw), [])))"

text \<open>
  \<^verbatim>\<open>compileFile\<close> and the helpers it registers call each other. The
  helpers are defined first, over \<open>self\<close>, the \<^verbatim>\<open>self.compileFile\<close> they call
  back into; \<open>compileFile\<close> then ties the knot by recursion on a bound on the
  nesting depth of its calls. A result \<open>None\<close> means that the bound was
  reached, \<open>Some (Inl e)\<close> that \<open>e\<close> was thrown, and
  \<open>Some (Inr (text, state))\<close> that the call returned.
\<close>

type_synonym 'a outcome = "(error + 'a \<times> cstate) option"

text \<open>\<^verbatim>\<open>sorted.map(f => self.compileFile(f.path))\<close>\<close>

fun compileFiles :: "(string \<Rightarrow> cstate \<Rightarrow> string outcome) \<Rightarrow> string list \<Rightarrow> cstate
    \<Rightarrow> (string list) outcome" where
  "compileFiles self [] st = Some (Inr ([], st))"
| "compileFiles self (p # ps) st =
     (case self p st of
        None \<Rightarrow> None
      | Some (Inl e) \<Rightarrow> Some (Inl e)
      | Some (Inr (r, st1)) \<Rightarrow>
          (case compileFiles self ps st1 of
             None \<Rightarrow> None
           | Some (Inl e) \<Rightarrow> Some (Inl e)
           | Some (Inr (rs, st2)) \<Rightarrow> Some (Inr (r # rs, st2))))"

text \<open>The block of an \<^verbatim>\<open>#each\<close>, run once per item.\<close>

fun renderEach :: "(yaml \<Rightarrow> cstate \<Rightarrow> string outcome) \<Rightarrow> yaml list \<Rightarrow> cstate \<Rightarrow> string outcome" where
  "renderEach block [] st = Some (Inr ([], st))"
| "renderEach block (item # items) st =
     (case block item st of
        None \<Rightarrow> None
      | Some (Inl e) \<Rightarrow> Some (Inl e)
      | Some (Inr (r, st1)) \<Rightarrow>
          (case renderEach block items st1 of
             None \<Rightarrow> None
           | Some (Inl e) \<Rightarrow> Some (Inl e)
           | Some (Inr (rs, st2)) \<Rightarrow> Some (Inr (r @ rs, st2))))"

text \<open>
  The first half of the \<^verbatim>\<open>tag\<close> and \<^verbatim>\<open>tagged\<close> helpers: record the tag,
  look the bucket up, sort it and compile its files in that order. The result
  pairs the sorted files with their compiled text; a missing or empty bucket
  gives no files.
\<close>

definition compileTag :: "(string \<Rightarrow> cstate \<Rightarrow> string outcome) \<Rightarrow> ext \<Rightarrow> compiler \<Rightarrow> string
    \<Rightarrow> cstate \<Rightarrow> (SourceFile list \<times> string list) outcome" where
  "compileTag self X C tagName st =
     (let st1 = st\<lparr> tagsUsed := set_add tagName (tagsUsed st) \<rparr> in
      case map_of (tags (index C)) tagName of
        None \<Rightarrow> Some (Inr (([], []), st1))
      | Some fs \<Rightarrow>
          if length fs = 0 then Some (Inr (([], []), st1))
          else
            (let sortedFiles = sortSourceFiles X fs in
             case compileFiles self (map path sortedFiles) st1 of
               None \<Rightarrow> None
             | Some (Inl e) \<Rightarrow> Some (Inl e)
             | Some (Inr (rendered, st2)) \<Rightarrow> Some (Inr ((sortedFiles, rendered), st2))))"

text \<open>
  One directive and a directive list. \<open>meta\<close> is the metadata object of the
  root context (\<^verbatim>\<open>options.data.root.meta\<close>) and \<open>ctx\<close> the current context
  (the root, or the item inside an \<^verbatim>\<open>#each\<close>).
\<close>

fun renderNode :: "(string \<Rightarrow> cstate \<Rightarrow> string outcome) \<Rightarrow> ext \<Rightarrow> compiler \<Rightarrow> frontmatter
    \<Rightarrow> yaml \<Rightarrow> node \<Rightarrow> cstate \<Rightarrow> string outcome"
and renderNodes :: "(string \<Rightarrow> cstate \<Rightarrow> string outcome) \<Rightarrow> ext \<Rightarrow> compiler \<Rightarrow> frontmatter
    \<Rightarrow> yaml \<Rightarrow> node list \<Rightarrow> cstate \<Rightarrow> string outcome"
where
  "renderNode self X C meta ctx (Text s) st = Some (Inr (s, st))"
| "renderNode self X C meta ctx (TagInc tagName) st =
     (case compileTag self X C tagName st of
        None \<Rightarrow> None
      | Some (Inl e) \<Rightarrow> Some (Inl e)
      | Some (Inr ((sortedFiles, rendered), st2)) \<Rightarrow> Some (Inr (join (sep (config C)) rendered, st2)))"
| "renderNode self X C meta ctx (FileInc filePath) st = self filePath st"
| "renderNode self X C meta ctx (MetaKey key) st = Some (Inr (emitValue X (metaHelper meta key), st))"
| "renderNode self X C meta ctx (Var ks) st = Some (Inr (emit X (lookupPath ctx ks), st))"
| "renderNode self X C meta ctx (EachTagged tagName body) st =
     (case compileTag self X C tagName st of
        None \<Rightarrow> None
      | Some (Inl e) \<Rightarrow> Some (Inl e)
      | Some (Inr ((sortedFiles, rendered), st2)) \<Rightarrow>
          renderEach (\<lambda>item. renderNodes self X C meta item body)
            (map2 (taggedItem X) sortedFiles rendered) st2)"
| "renderNodes self X C meta ctx [] st = Some (Inr ([], st))"
| "renderNodes self X C meta ctx (x # xs) st =
     (case renderNode self X C meta ctx x st of
        None \<Rightarrow> None
      | Some (Inl e) \<Rightarrow> Some (Inl e)
      | Some (Inr (r, st1)) \<Rightarrow>
          (case renderNodes self X C meta ctx xs st1 of
             None \<Rightarrow> None
           | Some (Inl e) \<Rightarrow> Some (Inl e)
           | Some (Inr (rs, st2)) \<Rightarrow> Some (Inr (r @ rs, st2))))"

text \<open>\<^verbatim>\<open>compileFile\<close>\<close>

fun compileFile :: "nat \<Rightarrow> ext \<Rightarrow> compiler \<Rightarrow> string \<Rightarrow> cstate \<Rightarrow> string outcome" where
  "compileFile 0 X C relPath st = None"
| "compileFile (Suc n) X C relPath st =
     (let normalised = normalise relPath in
      if normalised \<in> set (compileStack st)
      then Some (Inl (CircularReference (compileStack st @ [normalised])))
      else
        (let st1 = st\<lparr> compileStack := set_add normalised (compileStack st),
                        compiledFiles := set_add normalised (compiledFiles st) \<rparr> in
         case resolveContent X C normalised of
           Inl e \<Rightarrow> Some (Inl e)
         | Inr (contents, meta) \<Rightarrow>
             (case renderNodes (compileFile n X C) X C meta (rootContext C meta)
                     (hbs_parse X contents) st1 of
                None \<Rightarrow> None
              | Some (Inl e) \<Rightarrow> Some (Inl e)
              | Some (Inr (rendered, st2)) \<Rightarrow>
                  Some (Inr (rendered,
                    st2\<lparr> compileStack := set_delete normalised (compileStack st2) \<rparr>)))))"

text \<open>\<^verbatim>\<open>compile\<close>. An empty string is falsy, so \<^verbatim>\<open>!this.config.entry\<close> holds
  for it as for a missing entry.\<close>

definition compile :: "nat \<Rightarrow> ext \<Rightarrow> compiler \<Rightarrow> (error + CompileResult) option" where
  "compile n X C0 =
     (case entry (config C0) of
        None \<Rightarrow> Some (Inl NoEntry)
      | Some e \<Rightarrow>
          if e = [] then Some (Inl NoEntry)
          else
            (case sources (config C0) of
               None \<Rightarrow> Some (Inl NoSources)
             | Some srcs \<Rightarrow>
                 if length srcs = 0 then Some (Inl NoSources)
                 else
                   (case buildSourceIndex X (rootDir C0) srcs of
                      Inl err \<Rightarrow> Some (Inl err)
                    | Inr idx \<Rightarrow>
                        (let C = C0\<lparr> index := idx \<rparr>;
                             st0 = \<lparr> compileStack = [], compiledFiles = [], tagsUsed = [] \<rparr>;
                             entryPath = normalise e in
                         case compileFile n X C entryPath st0 of
                           None \<Rightarrow> None
                         | Some (Inl err) \<Rightarrow> Some (Inl err)
                         | Some (Inr (body, st)) \<Rightarrow>
                             (let fmMode = (case frontmatter_output (config C) of
                                              Some m \<Rightarrow> m | None \<Rightarrow> strip);
                                  block = (if fmMode = preserve
                                           then (case map_of (paths (index C)) entryPath of
                                                   Some entrySource \<Rightarrow>
                                                     serializeFrontmatter X
                                                       (stripInstruxMeta (frontmatter entrySource))
                                                 | None \<Rightarrow> [])
                                           else []);
                                  out = block @ body;
                                  out' = (if \<not> endsWithNewline out then out @ [CHR 0x0A] else out)
                              in Some (Inr \<lparr> outputText = out',
                                             filesCompiled = length (compiledFiles st),
                                             tagsUsedList = tagsUsed st \<rparr>))))))"

section \<open>Comparators\<close>

text \<open>
  A comparator as \<^verbatim>\<open>Array.prototype.sort\<close> expects it: the sign of \<open>cmp b a\<close>
  is opposite to the sign of \<open>cmp a b\<close>, and "not greater" is transitive.
\<close>

definition consistent :: "('a \<Rightarrow> 'a \<Rightarrow> int) \<Rightarrow> bool" where
  "consistent cmp =
     ((\<forall>a b. (cmp a b < 0) = (0 < cmp b a)) \<and>
      (\<forall>a b c. cmp a b \<le> 0 \<longrightarrow> cmp b c \<le> 0 \<longrightarrow> cmp a c \<le> 0))"

text \<open>Lexicographic comparison of two lists of numbers, and of two strings
  character by character, by character code.\<close>

fun lexNat :: "nat list \<Rightarrow> nat list \<Rightarrow> int" where
  "lexNat [] [] = 0"
| "lexNat [] (y # ys) = - 1"
| "lexNat (x # xs) [] = 1"
| "lexNat (x # xs) (y # ys) =
     (if x < y then - 1 else if y < x then 1 else lexNat xs ys)"

definition lexCompare :: "string \<Rightarrow> string \<Rightarrow> int" where
  "lexCompare a b = lexNat (map of_char a) (map of_char b)"

text \<open>
  A file whose order field is absent, null or a finite number, as the
  declaration \<^verbatim>\<open>order?: number\<close> has it.
\<close>

definition numericOrder :: "SourceFile \<Rightarrow> bool" where
  "numericOrder f =
     (case getProp (instrux f) ''order'' of
        None \<Rightarrow> True
      | Some YNull \<Rightarrow> True
      | Some (YNum (Finite r)) \<Rightarrow> True
      | Some v \<Rightarrow> False)"

section \<open>Collation\<close>

text \<open>
  \<^verbatim>\<open>String.prototype.localeCompare\<close> compares by the collation of the
  runtime's locale. For strings of ASCII characters and an English locale
  that is the root collation of ICU: strings are compared by the primary
  weights of their characters first, in which white space precedes
  punctuation, punctuation precedes digits, digits precede letters, and a
  capital letter weighs as its small letter; only strings that are equal in
  this are compared by case, a small letter before its capital. Control
  characters have no weight. (Bytes outside ASCII are left without weight
  here; the collation of such characters is not modelled.)

  \<open>collationOrder\<close> lists the character codes with a weight in ascending
  order: tab, line feed, vertical tab, form feed, carriage return, space;
  \<^verbatim>\<open>_ - , ; : ! ? . ' " ( ) [ ] { } @ * / \ & # % ` ^ + < = > | ~ $\<close>; the
  digits; the small letters. The sort key of a string is the list of its
  primary weights, a separator below all of them, and the case weights, as
  ICU builds sort keys; two strings compare as their sort keys.
\<close>

definition collationOrder :: "nat list" where
  "collationOrder =
     [9, 10, 11, 12, 13, 32,
      95, 45, 44, 59, 58, 33, 63, 46, 39, 34, 40, 41, 91, 93, 123, 125,
      64, 42, 47, 92, 38, 35, 37, 96, 94, 43, 60, 61, 62, 124, 126, 36]
     @ [48..<58] @ [97..<123]"

fun indexOf :: "nat \<Rightarrow> nat list \<Rightarrow> nat option" where
  "indexOf x [] = None"
| "indexOf x (y # ys) = (if x = y then Some 0 else map_option Suc (indexOf x ys))"

definition isCapital :: "char \<Rightarrow> bool" where
  "isCapital c = (65 \<le> (of_char c :: nat) \<and> (of_char c :: nat) \<le> 90)"

definition primaryWeight :: "char \<Rightarrow> nat option" where
  "primaryWeight c =
     indexOf (if isCapital c then of_char c + 32 else of_char c) collationOrder"

definition sortKey :: "string \<Rightarrow> nat list" where
  "sortKey s =
     concat (map (\<lambda>c. case primaryWeight c of None \<Rightarrow> [] | Some w \<Rightarrow> [Suc w]) s)
     @ 0 #
     concat (map (\<lambda>c. case primaryWeight c of None \<Rightarrow> []
                        | Some w \<Rightarrow> [if isCapital c then 1 else 0]) s)"

definition collate :: "string \<Rightarrow> string \<Rightarrow> int" where
  "collate a b = lexNat (sortKey a) (sortKey b)"

section \<open>Example environments\<close>

text \<open>
  A small stand-in for the libraries, used to run the compiler on concrete
  inputs: a template parses to what a table says (plain text otherwise), a
  raw file splits into frontmatter and content by a table (no frontmatter
  otherwise), strings compare by \<open>collate\<close>, a glob pattern matches the path
  it spells, and paths join with a slash, a leading \<^verbatim>\<open>./\<close> of the second path
  dropped. The examples print no number other than an integer of magnitude
  below \<open>10 ^ 21\<close>, whose JavaScript form is its decimal numeral, and no
  finite number that is not an integer; for these the stand-in prints a
  question mark. They convert no string to a number other than the decimal
  numeral of a natural number below 1000 and the empty string; any other
  string the stand-in reads as \<^verbatim>\<open>NaN\<close>.
\<close>

definition demoBasename :: "string \<Rightarrow> string" where
  "demoBasename p =
     (let file = rev (takeWhile (\<lambda>c. c \<noteq> CHR ''/'') (rev p)) in
      if 3 < length file \<and> drop (length file - 3) file = ''.md''
      then take (length file - 3) file else file)"

definition demoNumberToString :: "jsnum \<Rightarrow> string" where
  "demoNumberToString n =
     (case n of
        Finite r \<Rightarrow>
          (case quotient_of r of
             (a, b) \<Rightarrow>
               if b = 1 \<and> \<bar>a\<bar> < 10 ^ 21
               then (if a < 0 then ''-'' else []) @ digits (nat \<bar>a\<bar>)
               else ''?'')
      | PosInf \<Rightarrow> ''Infinity''
      | NegInf \<Rightarrow> ''-Infinity''
      | NaN \<Rightarrow> ''NaN'')"

definition demoStringToNumber :: "string \<Rightarrow> jsnum" where
  "demoStringToNumber s =
     (case find (\<lambda>n. digits n = s) [0..<1000] of
        Some n \<Rightarrow> Finite (of_nat n)
      | None \<Rightarrow> if s = [] then Finite 0 else NaN)"

definition demoStringify :: "frontmatter \<Rightarrow> string" where
  "demoStringify fm =
     ''---'' @ [CHR 0x0A]
       @ concat (map (\<lambda>(k, v). k @ '': '' @ (case v of YStr s \<Rightarrow> s | _ \<Rightarrow> ''?'') @ [CHR 0x0A]) fm)
       @ ''---'' @ [CHR 0x0A]"

definition demoJoin :: "string \<Rightarrow> string \<Rightarrow> string" where
  "demoJoin dir p = dir @ ''/'' @ (if take 2 p = ''./'' then drop 2 p else p)"

definition demoExt :: "(string \<times> node list) list \<Rightarrow> (string \<times> frontmatter \<times> string) list
    \<Rightarrow> (string \<times> string) list \<Rightarrow> ext" where
  "demoExt templates matters diskFiles =
     \<lparr> hbs_parse = (\<lambda>s. case map_of templates s of Some ns \<Rightarrow> ns | None \<Rightarrow> [Text s]),
       matter = (\<lambda>raw. case map_of matters raw of Some r \<Rightarrow> r | None \<Rightarrow> ([], raw)),
       stringify = demoStringify,
       localeCompare = collate,
       numberToString = demoNumberToString,
       stringToNumber = demoStringToNumber,
       basename_md = demoBasename,
       path_join = demoJoin,
       fg = (\<lambda>dir patterns. patterns),
       disk = map (\<lambda>(p, raw). (p, RegularFile raw)) diskFiles \<rparr>"

definition demoConfig :: "string \<Rightarrow> string list \<Rightarrow> FrontmatterOutput option \<Rightarrow> AgentConfig" where
  "demoConfig e srcs mode =
     \<lparr> name = ''n'', description = ''d'', entry = Some e, sources = Some srcs,
       frontmatter_output = mode, addSeparators = False, separatorStyle = ''---'' \<rparr>"

text \<open>The state at the start of \<^verbatim>\<open>compile\<close>.\<close>

definition freshState :: cstate where
  "freshState = \<lparr> compileStack = [], compiledFiles = [], tagsUsed = [] \<rparr>"

text \<open>
  Files with a tag and an optional order. The bucket of the tag \<open>x\<close> holds, in
  the order of the index, \<open>z.md\<close> (order 2), \<open>m.md\<close> (no order), \<open>y.md\<close>
  (order 1), \<open>B.md\<close> and \<open>a.md\<close> (both order 5); each file's text says its order.
\<close>

definition demoMeta :: "string \<Rightarrow> rat option \<Rightarrow> yaml" where
  "demoMeta t ord = YMap ((''tags'', YList [t]) #
                     (case ord of None \<Rightarrow> [] | Some n \<Rightarrow> [(''order'', YNum (Finite n))]))"

definition demoFile :: "string \<Rightarrow> string \<Rightarrow> rat option \<Rightarrow> string \<Rightarrow> SourceFile" where
  "demoFile t p ord body =
     \<lparr> path = p, frontmatter = [(''instrux'', demoMeta t ord)], instrux = demoMeta t ord,
       content = body \<rparr>"

definition sortDemoExt :: ext where
  "sortDemoExt = demoExt [] [] []"

definition sortDemoBucket :: "SourceFile list" where
  "sortDemoBucket =
     [demoFile ''x'' ''z.md'' (Some 2) ''two'', demoFile ''x'' ''m.md'' None ''none'',
      demoFile ''x'' ''y.md'' (Some 1) ''one'', demoFile ''x'' ''B.md'' (Some 5) ''five B'',
      demoFile ''x'' ''a.md'' (Some 5) ''five a'']"

definition sortDemoCompiler :: compiler where
  "sortDemoCompiler =
     \<lparr> rootDir = ''r'',
       config = demoConfig ''e.md'' [''*.md''] None,
       index = \<lparr> files = sortDemoBucket,
                 tags = [(''x'', sortDemoBucket)],
                 paths = map (\<lambda>f. (path f, f)) sortDemoBucket \<rparr> \<rparr>"

text \<open>
  The bucket of a tag \<open>w\<close>: \<open>m.md\<close> without an order, \<open>k.md\<close> with order 1000,
  \<open>b.md\<close> with order 5, and \<open>E.md\<close> and \<open>N.md\<close> with order 999. And a file
  whose order is an arbitrary value.
\<close>

definition lastDemoBucket :: "SourceFile list" where
  "lastDemoBucket =
     [demoFile ''w'' ''m.md'' None ''none'', demoFile ''w'' ''k.md'' (Some 1000) ''thousand'',
      demoFile ''w'' ''b.md'' (Some 5) ''five'', demoFile ''w'' ''E.md'' (Some 999) ''E'',
      demoFile ''w'' ''N.md'' (Some 999) ''N'']"

definition orderDemoFile :: "string \<Rightarrow> yaml \<Rightarrow> SourceFile" where
  "orderDemoFile p v =
     \<lparr> path = p, frontmatter = [(''instrux'', YMap [(''tags'', YList [''w'']), (''order'', v)])],
       instrux = YMap [(''tags'', YList [''w'']), (''order'', v)], content = p \<rparr>"

text \<open>A file without a title whose compiler metadata has a description.\<close>

definition titleDemoFile :: SourceFile where
  "titleDemoFile =
     \<lparr> path = ''docs/intro.md'',
       frontmatter = [(''instrux'', YMap [(''tags'', YList [''x'']), (''description'', YStr ''About'')])],
       instrux = YMap [(''tags'', YList [''x'']), (''description'', YStr ''About'')],
       content = ''Hello'' \<rparr>"

text \<open>Three entry files: one ending in two newlines, one ending in spaces, one empty.\<close>

definition nlDemoExt :: ext where
  "nlDemoExt = demoExt [] []
     [(''r/multi.md'', ''x'' @ [CHR 0x0A, CHR 0x0A]), (''r/spaces.md'', ''x  ''), (''r/empty.md'', [])]"

definition nlDemoCompiler :: "string \<Rightarrow> compiler" where
  "nlDemoCompiler e =
     \<lparr> rootDir = ''r'',
       config = demoConfig e [e] None,
       index = \<lparr> files = [], tags = [], paths = [] \<rparr> \<rparr>"

text \<open>
  An entry file \<open>e.md\<close> with the pass-through field \<open>title: X\<close> and the
  compiler field \<open>tags: [a]\<close>, a file \<open>o.md\<close> with compiler metadata only, and a
  plain file \<open>a.md\<close>. The compiler is given the entry, one source pattern and
  the metadata mode.
\<close>

definition fmDemoExt :: ext where
  "fmDemoExt = demoExt []
     [(''RAW'', ([(''title'', YStr ''X''), (''instrux'', YMap [(''tags'', YList [''a''])])], ''Body'')),
      (''ONLY'', ([(''instrux'', YMap [(''tags'', YList [''a''])])], ''Body''))]
     [(''r/e.md'', ''RAW''), (''r/o.md'', ''ONLY''), (''r/a.md'', ''A'')]"

definition fmDemoCompiler :: "string \<Rightarrow> string \<Rightarrow> FrontmatterOutput option \<Rightarrow> compiler" where
  "fmDemoCompiler e src mode =
     \<lparr> rootDir = ''r'',
       config = demoConfig e [src] mode,
       index = \<lparr> files = [], tags = [], paths = [] \<rparr> \<rparr>"

text \<open>
  A file \<open>in.md\<close> in the index and a file \<open>out.md\<close> on disk only, both with the
  frontmatter \<open>title: T\<close> and the template \<^verbatim>\<open>t={{meta "title"}}\<close>; a file
  \<open>proto.md\<close> on disk only with the template
  \<^verbatim>\<open>{{meta "constructor"}}|{{meta "__proto__"}}|{{meta "valueOf"}}\<close>.
\<close>

definition diskDemoFile :: SourceFile where
  "diskDemoFile =
     \<lparr> path = ''in.md'', frontmatter = [(''title'', YStr ''T'')], instrux = YMap [],
       content = ''TPL'' \<rparr>"

definition diskDemoExt :: ext where
  "diskDemoExt = demoExt
     [(''TPL'', [Text ''t='', MetaKey ''title'']),
      (''PROTO'', [MetaKey ''constructor'', Text ''|'', MetaKey ''__proto__'', Text ''|'',
                   MetaKey ''valueOf''])]
     [(''RAW'', ([(''title'', YStr ''T'')], ''TPL''))]
     [(''r/in.md'', ''RAW''), (''r/out.md'', ''RAW''), (''r/proto.md'', ''PROTO'')]"

definition diskDemoCompiler :: compiler where
  "diskDemoCompiler =
     \<lparr> rootDir = ''r'',
       config = demoConfig ''out.md'' [''in.md''] None,
       index = \<lparr> files = [diskDemoFile], tags = [], paths = [(''in.md'', diskDemoFile)] \<rparr> \<rparr>"

text \<open>
  Two indexed files \<open>a.md\<close> and \<open>b.md\<close> that include each other by path, and a
  file \<open>s.md\<close> on disk that includes itself. In a second index, \<open>a.md\<close>
  includes \<open>c.md\<close> before \<open>b.md\<close>, \<open>b.md\<close> and \<open>c.md\<close> include \<open>a.md\<close>, and
  \<open>t.md\<close> includes a missing file before itself.
\<close>

definition plainFile :: "string \<Rightarrow> string \<Rightarrow> SourceFile" where
  "plainFile p body = \<lparr> path = p, frontmatter = [], instrux = YMap [], content = body \<rparr>"

definition cycleDemoExt :: ext where
  "cycleDemoExt = demoExt
     [(''TA'', [Text ''see '', FileInc ''b.md'']),
      (''TB'', [Text ''back '', FileInc ''a.md'', Text ''.'']),
      (''TS'', [FileInc ''s.md'']),
      (''TA2'', [FileInc ''c.md'', FileInc ''b.md'']),
      (''TC'', [FileInc ''a.md'']),
      (''TT'', [FileInc ''gone.md'', FileInc ''t.md''])]
     []
     [(''r/s.md'', ''TS'')]"

definition cycleDemoCompiler :: compiler where
  "cycleDemoCompiler =
     \<lparr> rootDir = ''r'',
       config = demoConfig ''a.md'' [''a.md'', ''b.md''] None,
       index = \<lparr> files = [plainFile ''a.md'' ''TA'', plainFile ''b.md'' ''TB''],
                 tags = [],
                 paths = [(''a.md'', plainFile ''a.md'' ''TA''),
                          (''b.md'', plainFile ''b.md'' ''TB'')] \<rparr> \<rparr>"

definition detourDemoCompiler :: compiler where
  "detourDemoCompiler =
     \<lparr> rootDir = ''r'',
       config = demoConfig ''a.md'' [''*.md''] None,
       index = \<lparr> files = [plainFile ''a.md'' ''TA2'', plainFile ''b.md'' ''TC'',
                          plainFile ''c.md'' ''TC'', plainFile ''t.md'' ''TT''],
                 tags = [],
                 paths = [(''a.md'', plainFile ''a.md'' ''TA2''),
                          (''b.md'', plainFile ''b.md'' ''TC''),
                          (''c.md'', plainFile ''c.md'' ''TC''),
                          (''t.md'', plainFile ''t.md'' ''TT'')] \<rparr> \<rparr>"

text \<open>
  An entry \<^verbatim>\<open>A {{tag "t"}} B\<close>, one file tagged \<open>t\<close> with the body
  \<^verbatim>\<open>X {{file "other.md"}}\<close>, and \<open>other.md\<close> with the body \<open>Y\<close>.
\<close>

definition nestDemoExt :: ext where
  "nestDemoExt = demoExt
     [(''TE'', [Text ''A '', TagInc ''t'', Text '' B'']),
      (''TX'', [Text ''X '', FileInc ''other.md''])]
     [] []"

definition nestDemoCompiler :: compiler where
  "nestDemoCompiler =
     \<lparr> rootDir = ''r'',
       config = demoConfig ''e.md'' [''e.md'', ''x.md'', ''other.md''] None,
       index =
         \<lparr> files = [],
           tags = [(''t'', [\<lparr> path = ''x.md'', frontmatter = [],
                             instrux = YMap [(''tags'', YList [''t''])], content = ''TX'' \<rparr>])],
           paths = [(''e.md'', \<lparr> path = ''e.md'', frontmatter = [], instrux = YMap [], content = ''TE'' \<rparr>),
                    (''x.md'', \<lparr> path = ''x.md'', frontmatter = [],
                                instrux = YMap [(''tags'', YList [''t''])], content = ''TX'' \<rparr>),
                    (''other.md'', \<lparr> path = ''other.md'', frontmatter = [], instrux = YMap [],
                                    content = ''Y'' \<rparr>)] \<rparr> \<rparr>"

text \<open>
  A file \<open>d.md\<close> whose tag list is \<open>[x, x]\<close>, a file \<open>s.md\<close> whose tags are the
  string \<open>yz\<close>, an entry with the template
  \<^verbatim>\<open>{{tag "x"}}|{{#each (tagged "x")}}{{path}}: {{body}};{{/each}}\<close>, and the
  index built from the three.
\<close>

definition dupDemoExt :: ext where
  "dupDemoExt = demoExt
     [(''TE'', [TagInc ''x'', Text ''|'',
                EachTagged ''x'' [Var [''path''], Text '': '', Var [''body''], Text '';'']])]
     [(''RAWD'', ([(''instrux'', YMap [(''tags'', YList [''x'', ''x''])])], ''Dup'')),
      (''RAWS'', ([(''instrux'', YMap [(''tags'', YStr ''yz'')])], ''Str''))]
     [(''r/d.md'', ''RAWD''), (''r/s.md'', ''RAWS''), (''r/e.md'', ''TE'')]"

definition dupDemoFile :: SourceFile where
  "dupDemoFile =
     \<lparr> path = ''d.md'', frontmatter = [(''instrux'', YMap [(''tags'', YList [''x'', ''x''])])],
       instrux = YMap [(''tags'', YList [''x'', ''x''])], content = ''Dup'' \<rparr>"

definition strDemoFile :: SourceFile where
  "strDemoFile =
     \<lparr> path = ''s.md'', frontmatter = [(''instrux'', YMap [(''tags'', YStr ''yz'')])],
       instrux = YMap [(''tags'', YStr ''yz'')], content = ''Str'' \<rparr>"

definition dupDemoIndex :: SourceIndex where
  "dupDemoIndex =
     \<lparr> files = [dupDemoFile, strDemoFile, plainFile ''e.md'' ''TE''],
       tags = [(''x'', [dupDemoFile, dupDemoFile]), (''y'', [strDemoFile]), (''z'', [strDemoFile])],
       paths = [(''d.md'', dupDemoFile), (''s.md'', strDemoFile),
                (''e.md'', plainFile ''e.md'' ''TE'')] \<rparr>"

definition dupDemoCompiler :: compiler where
  "dupDemoCompiler =
     \<lparr> rootDir = ''r'',
       config = demoConfig ''e.md'' [''d.md'', ''s.md'', ''e.md''] None,
       index = dupDemoIndex \<rparr>"

section \<open>Reasoning about outcomes\<close>

text \<open>
  What a call did: ran into the depth bound, threw, or returned. \<open>good Q I r\<close>
  says that the shape of the outcome \<open>r\<close> satisfies \<open>Q\<close> and that the state after
  a return satisfies \<open>I\<close>.
\<close>

datatype shape = Diverged | Threw error | Returned

definition shapeOf :: "'a outcome \<Rightarrow> shape" where
  "shapeOf r = (case r of None \<Rightarrow> Diverged | Some (Inl e) \<Rightarrow> Threw e | Some (Inr v) \<Rightarrow> Returned)"

definition good :: "(shape \<Rightarrow> bool) \<Rightarrow> (cstate \<Rightarrow> bool) \<Rightarrow> 'a outcome \<Rightarrow> bool" where
  "good Q I r = (Q (shapeOf r) \<and> (\<forall>v st'. r = Some (Inr (v, st')) \<longrightarrow> I st'))"

text \<open>The paths a directive can pass to \<^verbatim>\<open>compileFile\<close>: the argument of a
  \<^verbatim>\<open>file\<close> directive, the paths of the files in the bucket of a \<^verbatim>\<open>tag\<close> or
  \<^verbatim>\<open>tagged\<close> directive, and those of the directives in an \<^verbatim>\<open>#each\<close> block.\<close>

fun callees :: "compiler \<Rightarrow> node \<Rightarrow> string list" where
  "callees C (FileInc p) = [p]"
| "callees C (TagInc t) =
     (case map_of (tags (index C)) t of None \<Rightarrow> [] | Some fs \<Rightarrow> map path fs)"
| "callees C (EachTagged t body) =
     (case map_of (tags (index C)) t of None \<Rightarrow> [] | Some fs \<Rightarrow> map path fs)
       @ concat (map (callees C) body)"
| "callees C (Text s) = []"
| "callees C (MetaKey k) = []"
| "callees C (Var ks) = []"

text \<open>A path that is neither in the index nor on disk.\<close>

definition absent :: "ext \<Rightarrow> compiler \<Rightarrow> string \<Rightarrow> bool" where
  "absent X C p = (map_of (paths (index C)) p = None
                   \<and> map_of (disk X) (path_join X (rootDir C) p) = None)"

text \<open>A file-not-found error names an absent path.\<close>

definition notFoundOk :: "ext \<Rightarrow> compiler \<Rightarrow> shape \<Rightarrow> bool" where
  "notFoundOk X C s = (case s of Threw (FileNotFound q) \<Rightarrow> absent X C q | _ \<Rightarrow> True)"

text \<open>A template with every \<^verbatim>\<open>meta\<close> directive, at any depth, whose key is not
  the name of a member of \<^verbatim>\<open>Object.prototype\<close> replaced by the empty text.\<close>

fun eraseMeta :: "node \<Rightarrow> node" where
  "eraseMeta (MetaKey k) = (if objectPrototype k = None then Text [] else MetaKey k)"
| "eraseMeta (EachTagged t body) = EachTagged t (map eraseMeta body)"
| "eraseMeta (Text s) = Text s"
| "eraseMeta (TagInc t) = TagInc t"
| "eraseMeta (FileInc p) = FileInc p"
| "eraseMeta (Var ks) = Var ks"

text \<open>
  \<open>simulates R r1 r2\<close>: whatever the first outcome is other than reaching the
  depth bound, the second is the same, with states related by \<open>R\<close>.
\<close>

definition simulates :: "(cstate \<Rightarrow> cstate \<Rightarrow> bool) \<Rightarrow> 'a outcome \<Rightarrow> 'a outcome \<Rightarrow> bool" where
  "simulates R r1 r2 =
     (case r1 of
        None \<Rightarrow> True
      | Some (Inl e) \<Rightarrow> r2 = Some (Inl e)
      | Some (Inr (v, s)) \<Rightarrow> (\<exists>s'. r2 = Some (Inr (v, s')) \<and> R s s'))"

text \<open>
  \<open>pathIncludes X C a b\<close>: the file at path \<open>a\<close> has a directive that resolves
  the path \<open>b\<close>. A chain is well formed for a stack \<open>S\<close> and a path \<open>p\<close> when
  it starts with \<open>S\<close> followed by \<open>p\<close>, each of its paths includes the next one,
  and its last path is the only repeated one.
\<close>

definition pathIncludes :: "ext \<Rightarrow> compiler \<Rightarrow> string \<Rightarrow> string \<Rightarrow> bool" where
  "pathIncludes X C a b =
     (case resolveContent X C a of
        Inl e \<Rightarrow> False
      | Inr (contents, meta) \<Rightarrow>
          b \<in> normalise ` set (concat (map (callees C) (hbs_parse X contents))))"

definition chainOk :: "ext \<Rightarrow> compiler \<Rightarrow> string list \<Rightarrow> string \<Rightarrow> string list \<Rightarrow> bool" where
  "chainOk X C S p chain =
     (\<exists>rest. chain = S @ p # rest
        \<and> successively (pathIncludes X C) chain
        \<and> distinct (butlast chain)
        \<and> last chain \<in> set (butlast chain))"

definition cycleOk :: "ext \<Rightarrow> compiler \<Rightarrow> string list \<Rightarrow> string \<Rightarrow> shape \<Rightarrow> bool" where
  "cycleOk X C S p s = (case s of Threw (CircularReference chain) \<Rightarrow> chainOk X C S p chain | _ \<Rightarrow> True)"

text \<open>
  The paths reachable from an entry path through directives, and a list that
  contains them all: the entry path and every path that a directive of an
  indexed file or of a file on disk can resolve.
\<close>

definition reachablePaths :: "ext \<Rightarrow> compiler \<Rightarrow> string \<Rightarrow> string set" where
  "reachablePaths X C p = {b. rtranclp (pathIncludes X C) (normalise p) b}"

definition allContents :: "ext \<Rightarrow> compiler \<Rightarrow> string list" where
  "allContents X C =
     map (\<lambda>(k, f). content f) (paths (index C)) @ concat (map (\<lambda>(k, d). case d of RegularFile raw \<Rightarrow> [snd (matter X raw)] | Directory \<Rightarrow> [])
         (disk X))"

definition knownPaths :: "ext \<Rightarrow> compiler \<Rightarrow> string \<Rightarrow> string list" where
  "knownPaths X C p =
     normalise p #
     map normalise (concat (map (\<lambda>c. concat (map (callees C) (hbs_parse X c))) (allContents X C)))"

text \<open>The bucket of a tag (\<^verbatim>\<open>tags.get(tag) ?? []\<close>), the tags that the index
  files a source file under, and equality of the compile stacks of two states.\<close>

definition getBucket :: "(string \<times> SourceFile list) list \<Rightarrow> string \<Rightarrow> SourceFile list" where
  "getBucket tgs t = (case map_of tgs t of Some b \<Rightarrow> b | None \<Rightarrow> [])"

definition tagList :: "SourceFile \<Rightarrow> string list" where
  "tagList f = (case instrux_tags (instrux f) of Inr ts \<Rightarrow> ts | Inl e \<Rightarrow> [])"

definition stackEq :: "cstate \<Rightarrow> cstate \<Rightarrow> bool" where
  "stackEq s s' = (compileStack s = compileStack s')"

text \<open>The number that a file with a numeric order field is sorted by: the
  field, or 999 when it is absent or null.\<close>

definition orderKey :: "SourceFile \<Rightarrow> rat" where
  "orderKey f = (case getProp (instrux f) ''order'' of Some (YNum (Finite r)) \<Rightarrow> r | _ \<Rightarrow> 999)"

section \<open>Properties\<close>

subsection \<open>Sorting\<close>

lemma mset_insertBy: "mset (insertBy cmp x xs) = add_mset x (mset xs)"
  by (induction xs) auto

lemma mset_array_sort: "mset (array_sort cmp xs) = mset xs"
  by (induction xs) (auto simp: mset_insertBy)

lemma set_insertBy: "set (insertBy cmp x xs) = insert x (set xs)"
  by (induction xs) auto

lemma set_array_sort: "set (array_sort cmp xs) = set xs"
  by (metis mset_array_sort set_mset_mset)

lemma consistent_total: "consistent cmp \<Longrightarrow> \<not> cmp a b \<le> 0 \<Longrightarrow> cmp b a \<le> 0"
  unfolding consistent_def by (metis less_le_not_le linorder_not_le)

lemma consistent_trans: "consistent cmp \<Longrightarrow> cmp a b \<le> 0 \<Longrightarrow> cmp b c \<le> 0 \<Longrightarrow> cmp a c \<le> 0"
  unfolding consistent_def by blast

lemma consistent_antisym: "consistent cmp \<Longrightarrow> cmp a b < 0 \<Longrightarrow> 0 < cmp b a"
  unfolding consistent_def by blast

lemma sorted_insertBy:
  assumes tot: "\<And>a b. a \<in> S \<Longrightarrow> b \<in> S \<Longrightarrow> \<not> cmp a b \<le> 0 \<Longrightarrow> cmp b a \<le> 0"
    and trans: "\<And>a b c. a \<in> S \<Longrightarrow> b \<in> S \<Longrightarrow> c \<in> S \<Longrightarrow> cmp a b \<le> 0 \<Longrightarrow> cmp b c \<le> 0
        \<Longrightarrow> cmp a c \<le> 0"
    and x: "x \<in> S"
  shows "set xs \<subseteq> S \<Longrightarrow> sorted_wrt (\<lambda>a b. cmp a b \<le> 0) xs
    \<Longrightarrow> sorted_wrt (\<lambda>a b. cmp a b \<le> 0) (insertBy cmp x xs)"
proof (induction xs)
  case Nil
  then show ?case by simp
next
  case (Cons y ys)
  from Cons.prems(1) have y: "y \<in> S" and ys: "set ys \<subseteq> S" by simp_all
  show ?case
  proof (cases "cmp x y \<le> 0")
    case True
    have "\<forall>z\<in>set ys. cmp x z \<le> 0"
    proof
      fix z assume z: "z \<in> set ys"
      with Cons.prems(2) have "cmp y z \<le> 0" by simp
      from trans [OF x y _ True this] z ys show "cmp x z \<le> 0" by blast
    qed
    with True Cons.prems(2) show ?thesis by simp
  next
    case False
    then have "cmp y x \<le> 0" by (rule tot [OF x y])
    moreover from Cons.prems(2) have "sorted_wrt (\<lambda>a b. cmp a b \<le> 0) ys" by simp
    ultimately show ?thesis
      using False Cons.prems(2) Cons.IH [OF ys] by (auto simp: set_insertBy)
  qed
qed

lemma sorted_array_sort:
  assumes tot: "\<And>a b. a \<in> S \<Longrightarrow> b \<in> S \<Longrightarrow> \<not> cmp a b \<le> 0 \<Longrightarrow> cmp b a \<le> 0"
    and trans: "\<And>a b c. a \<in> S \<Longrightarrow> b \<in> S \<Longrightarrow> c \<in> S \<Longrightarrow> cmp a b \<le> 0 \<Longrightarrow> cmp b c \<le> 0
        \<Longrightarrow> cmp a c \<le> 0"
  shows "set xs \<subseteq> S \<Longrightarrow> sorted_wrt (\<lambda>a b. cmp a b \<le> 0) (array_sort cmp xs)"
proof (induction xs)
  case Nil
  then show ?case by simp
next
  case (Cons x xs)
  from Cons.prems have x: "x \<in> S" and xs: "set xs \<subseteq> S" by simp_all
  have "sorted_wrt (\<lambda>a b. cmp a b \<le> 0) (insertBy cmp x (array_sort cmp xs))"
    by (rule sorted_insertBy [of S cmp, OF tot trans x]) (simp_all add: set_array_sort xs Cons.IH)
  then show ?case by simp
qed

lemma numericOrder_order:
  "numericOrder f \<Longrightarrow> instrux_order (instrux f) = YNum (Finite (orderKey f))"
  unfolding numericOrder_def instrux_order_def orderKey_def orElse_def
  by (auto split: option.splits yaml.splits jsnum.splits)

lemma compareSourceFiles_numeric:
  assumes "numericOrder a" "numericOrder b"
  shows "compareSourceFiles X a b =
     (if orderKey a < orderKey b then - 1
      else if orderKey b < orderKey a then 1
      else localeCompare X (path a) (path b))"
  by (simp add: compareSourceFiles_def Let_def numericOrder_order [OF assms(1)]
      numericOrder_order [OF assms(2)] toNumber_def)

lemma sortSourceFiles_mset: "mset (sortSourceFiles X fs) = mset fs"
  by (simp add: sortSourceFiles_def mset_array_sort)

lemma set_sortSourceFiles: "set (sortSourceFiles X fs) = set fs"
  by (metis sortSourceFiles_mset set_mset_mset)

lemma length_sortSourceFiles: "length (sortSourceFiles X fs) = length fs"
  by (metis sortSourceFiles_mset size_mset)

lemma sortSourceFiles_sorted:
  assumes lc: "consistent (localeCompare X)"
    and num: "\<forall>g\<in>set fs. numericOrder g"
  shows "sorted_wrt (\<lambda>x y. orderKey x < orderKey y \<or>
            (orderKey x = orderKey y \<and> localeCompare X (path x) (path y) \<le> 0))
          (sortSourceFiles X fs)"
proof -
  let ?S = "{g. numericOrder g}"
  have tot: "\<And>a b. a \<in> ?S \<Longrightarrow> b \<in> ?S \<Longrightarrow> \<not> compareSourceFiles X a b \<le> 0
      \<Longrightarrow> compareSourceFiles X b a \<le> 0"
  proof -
    fix a b assume a: "a \<in> ?S" and b: "b \<in> ?S" and n: "\<not> compareSourceFiles X a b \<le> 0"
    from a b have na: "numericOrder a" and nb: "numericOrder b" by simp_all
    from n have "orderKey b < orderKey a \<or>
        (orderKey a = orderKey b \<and> \<not> localeCompare X (path a) (path b) \<le> 0)"
      unfolding compareSourceFiles_numeric [OF na nb] by (auto split: if_splits)
    then show "compareSourceFiles X b a \<le> 0"
      unfolding compareSourceFiles_numeric [OF nb na]
      using consistent_total [OF lc, of "path a" "path b"] by auto
  qed
  have trans: "\<And>a b c. a \<in> ?S \<Longrightarrow> b \<in> ?S \<Longrightarrow> c \<in> ?S \<Longrightarrow> compareSourceFiles X a b \<le> 0
      \<Longrightarrow> compareSourceFiles X b c \<le> 0 \<Longrightarrow> compareSourceFiles X a c \<le> 0"
  proof -
    fix a b c
    assume a: "a \<in> ?S" and b: "b \<in> ?S" and c: "c \<in> ?S"
      and ab: "compareSourceFiles X a b \<le> 0" and bc: "compareSourceFiles X b c \<le> 0"
    from a b c have na: "numericOrder a" and nb: "numericOrder b" and nc: "numericOrder c"
      by simp_all
    from ab have ab': "orderKey a < orderKey b \<or>
        (orderKey a = orderKey b \<and> localeCompare X (path a) (path b) \<le> 0)"
      unfolding compareSourceFiles_numeric [OF na nb] by (auto split: if_splits)
    from bc have bc': "orderKey b < orderKey c \<or>
        (orderKey b = orderKey c \<and> localeCompare X (path b) (path c) \<le> 0)"
      unfolding compareSourceFiles_numeric [OF nb nc] by (auto split: if_splits)
    from ab' bc' have "orderKey a < orderKey c \<or>
        (orderKey a = orderKey c \<and> localeCompare X (path a) (path c) \<le> 0)"
      using consistent_trans [OF lc, of "path a" "path b" "path c"] by auto
    then show "compareSourceFiles X a c \<le> 0"
      unfolding compareSourceFiles_numeric [OF na nc] by auto
  qed
  have sub: "set fs \<subseteq> ?S" using num by auto
  have "sorted_wrt (\<lambda>x y. compareSourceFiles X x y \<le> 0) (sortSourceFiles X fs)"
    unfolding sortSourceFiles_def by (rule sorted_array_sort [of ?S, OF tot trans sub])
  then show ?thesis
  proof (rule sorted_wrt_mono_rel [rotated])
    fix x y
    assume "x \<in> set (sortSourceFiles X fs)" "y \<in> set (sortSourceFiles X fs)"
      and le: "compareSourceFiles X x y \<le> 0"
    with num have nx: "numericOrder x" and ny: "numericOrder y"
      by (simp_all add: set_sortSourceFiles)
    from le show "orderKey x < orderKey y \<or>
            (orderKey x = orderKey y \<and> localeCompare X (path x) (path y) \<le> 0)"
      unfolding compareSourceFiles_numeric [OF nx ny] by (auto split: if_splits)
  qed
qed

lemma lexNat_antisym: "(lexNat a b < 0) = (0 < lexNat b a)"
  by (induction a b rule: lexNat.induct) simp_all

lemma lexNat_trans: "lexNat a b \<le> 0 \<Longrightarrow> lexNat b c \<le> 0 \<Longrightarrow> lexNat a c \<le> 0"
proof (induction a c arbitrary: b rule: lexNat.induct)
  case 1 then show ?case by simp
next
  case (2 y ys) then show ?case by simp
next
  case (3 x xs)
  then show ?case by (cases b) simp_all
next
  case (4 x xs y ys)
  from "4.prems"(1) obtain z zs where b: "b = z # zs"
    by (cases b) simp_all
  from "4.prems"(1) b have xz: "x < z \<or> (x = z \<and> lexNat xs zs \<le> 0)"
    by (simp split: if_splits)
  from "4.prems"(2) b have zy: "z < y \<or> (z = y \<and> lexNat zs ys \<le> 0)"
    by (simp split: if_splits)
  show ?case
  proof (cases "x < y")
    case True then show ?thesis by simp
  next
    case False
    with xz zy have eq: "x = z" "z = y"
      and le: "lexNat xs zs \<le> 0" "lexNat zs ys \<le> 0"
      by linarith+
    from "4.IH" [OF _ _ le] False eq have "lexNat xs ys \<le> 0" by simp
    with False eq show ?thesis by simp
  qed
qed

lemma consistent_collate: "consistent collate"
  unfolding consistent_def collate_def using lexNat_antisym lexNat_trans by blast

lemma sorted_wrt_split:
  assumes "sorted_wrt R xs" "\<not> R g f" "f \<noteq> g"
  shows "\<exists>pre post. xs = pre @ post \<and> g \<notin> set pre \<and> f \<notin> set post"
proof -
  let ?pre = "takeWhile (\<lambda>x. x \<noteq> g) xs" and ?post = "dropWhile (\<lambda>x. x \<noteq> g) xs"
  have 1: "xs = ?pre @ ?post" by simp
  have 2: "g \<notin> set ?pre" by (auto dest: set_takeWhileD)
  have 3: "f \<notin> set ?post"
  proof
    assume f: "f \<in> set ?post"
    then have ne: "?post \<noteq> []" by (metis empty_iff empty_set)
    from hd_dropWhile [OF ne] have "hd ?post = g" by simp
    with ne obtain rest where post: "?post = g # rest" by (metis list.collapse)
    from f [unfolded post] assms(3) have "f \<in> set rest" by simp
    moreover from assms(1) have "sorted_wrt R (?pre @ ?post)" by simp
    then have "sorted_wrt R (g # rest)" unfolding post by (simp add: sorted_wrt_append)
    ultimately have "R g f" by auto
    with assms(2) show False by simp
  qed
  from 1 2 3 show ?thesis by blast
qed

subsection \<open>Items of the tag iteration\<close>

lemma getProp_YMap: "getProp (YMap m) k = map_of m k"
  by (simp add: getProp_def)

text \<open>
  C8, amended. Every item that the \<^verbatim>\<open>tagged\<close> helper produces has as title the
  frontmatter title of the file when that is present (not null), and otherwise
  \<^verbatim>\<open>path.basename(path, '.md')\<close>. The description of the compiler metadata is
  the fallback of the item's description, not of its title.
\<close>

theorem tagged_item_title:
  "getProp (taggedItem X f compiled) ''title'' =
     Some (case map_of (frontmatter f) ''title'' of
             None \<Rightarrow> YStr (basename_md X (path f))
           | Some YNull \<Rightarrow> YStr (basename_md X (path f))
           | Some v \<Rightarrow> v)
   \<and> getProp (taggedItem X f compiled) ''description'' =
     Some (case map_of (frontmatter f) ''description'' of
             None \<Rightarrow> orElse (getProp (instrux f) ''description'') (YStr [])
           | Some YNull \<Rightarrow> orElse (getProp (instrux f) ''description'') (YStr [])
           | Some v \<Rightarrow> v)
   \<and> renderNode self X C meta ctx (EachTagged t body) st =
       (case compileTag self X C t st of
          None \<Rightarrow> None
        | Some (Inl e) \<Rightarrow> Some (Inl e)
        | Some (Inr ((fs, rendered), st2)) \<Rightarrow>
            renderEach (\<lambda>item. renderNodes self X C meta item body)
              (map2 (taggedItem X) fs rendered) st2)"
  by (simp add: taggedItem_def getProp_YMap orElse_def split: option.splits yaml.splits)

text \<open>A file without a title and with the compiler-metadata description
  \<open>About\<close> gets the title \<open>intro\<close>, from its file name.\<close>

theorem tagged_item_title_counterexample:
  "getProp (instrux titleDemoFile) ''description'' = Some (YStr ''About'')
   \<and> map_of (frontmatter titleDemoFile) ''title'' = None
   \<and> getProp (taggedItem sortDemoExt titleDemoFile ''Hello'') ''title'' = Some (YStr ''intro'')"
  by (simp add: titleDemoFile_def taggedItem_def getProp_YMap orElse_def sortDemoExt_def demoExt_def
      demoBasename_def)
subsection \<open>Output assembly\<close>

lemma compile_returns:
  assumes "compile n X C0 = Some (Inr res)"
  obtains e srcs idx body st where
    "entry (config C0) = Some e" "e \<noteq> []" "sources (config C0) = Some srcs" "srcs \<noteq> []"
    "buildSourceIndex X (rootDir C0) srcs = Inr idx"
    "compileFile n X (C0\<lparr> index := idx \<rparr>) (normalise e)
        \<lparr> compileStack = [], compiledFiles = [], tagsUsed = [] \<rparr> = Some (Inr (body, st))"
    "res = \<lparr> outputText =
               (let block = (if (case frontmatter_output (config C0) of Some m \<Rightarrow> m | None \<Rightarrow> strip) = preserve
                             then (case map_of (paths idx) (normalise e) of
                                     Some entrySource \<Rightarrow>
                                       serializeFrontmatter X (stripInstruxMeta (frontmatter entrySource))
                                   | None \<Rightarrow> [])
                             else []);
                    out = block @ body
                in if \<not> endsWithNewline out then out @ [CHR 0x0A] else out),
             filesCompiled = length (compiledFiles st),
             tagsUsedList = tagsUsed st \<rparr>"
  using assms unfolding compile_def Let_def
  by (auto split: option.splits if_splits sum.splits prod.splits)

text \<open>
  C4, amended. When \<^verbatim>\<open>compile\<close> returns, its output is the assembled text (the
  metadata block, if any, followed by the rendered entry body) with one newline
  appended exactly when the assembled text does not end in a newline already.
  So the output always ends in a newline; nothing is stripped.
\<close>

theorem output_ends_with_newline:
  assumes "compile n X C0 = Some (Inr res)"
  shows "endsWithNewline (outputText res)
     \<and> (\<exists>e srcs idx body st.
           entry (config C0) = Some e \<and> sources (config C0) = Some srcs
         \<and> buildSourceIndex X (rootDir C0) srcs = Inr idx
         \<and> compileFile n X (C0\<lparr> index := idx \<rparr>) (normalise e) freshState = Some (Inr (body, st))
         \<and> (let block = (if frontmatter_output (config C0) = Some preserve
                           then (case map_of (paths idx) (normalise e) of
                                   Some entrySource \<Rightarrow>
                                     serializeFrontmatter X (stripInstruxMeta (frontmatter entrySource))
                                 | None \<Rightarrow> [])
                           else [])
              in outputText res =
                   (if endsWithNewline (block @ body) then block @ body
                    else block @ body @ [CHR 0x0A])))"
proof -
  from assms obtain e srcs idx body st where
    h: "entry (config C0) = Some e" "sources (config C0) = Some srcs"
    "buildSourceIndex X (rootDir C0) srcs = Inr idx"
    "compileFile n X (C0\<lparr> index := idx \<rparr>) (normalise e)
        \<lparr> compileStack = [], compiledFiles = [], tagsUsed = [] \<rparr> = Some (Inr (body, st))"
    and r: "res = \<lparr> outputText =
               (let block = (if (case frontmatter_output (config C0) of Some m \<Rightarrow> m | None \<Rightarrow> strip) = preserve
                             then (case map_of (paths idx) (normalise e) of
                                     Some entrySource \<Rightarrow>
                                       serializeFrontmatter X (stripInstruxMeta (frontmatter entrySource))
                                   | None \<Rightarrow> [])
                             else []);
                    out = block @ body
                in if \<not> endsWithNewline out then out @ [CHR 0x0A] else out),
             filesCompiled = length (compiledFiles st),
             tagsUsedList = tagsUsed st \<rparr>"
    by (rule compile_returns)
  have mode: "((case frontmatter_output (config C0) of Some m \<Rightarrow> m | None \<Rightarrow> strip) = preserve)
      = (frontmatter_output (config C0) = Some preserve)"
    by (cases "frontmatter_output (config C0)") auto
  define block where "block = (if frontmatter_output (config C0) = Some preserve
                             then (case map_of (paths idx) (normalise e) of
                                     Some entrySource \<Rightarrow>
                                       serializeFrontmatter X (stripInstruxMeta (frontmatter entrySource))
                                   | None \<Rightarrow> [])
                             else [])"
  from r have o: "outputText res =
      (if endsWithNewline (block @ body) then block @ body else block @ body @ [CHR 0x0A])"
    by (simp add: block_def Let_def mode)
  then have 1: "endsWithNewline (outputText res)"
    by (simp add: endsWithNewline_def)
  from h(4) have f: "compileFile n X (C0\<lparr> index := idx \<rparr>) (normalise e) freshState
      = Some (Inr (body, st))"
    by (simp add: freshState_def)
  from o have 2: "let block = (if frontmatter_output (config C0) = Some preserve
                           then (case map_of (paths idx) (normalise e) of
                                   Some entrySource \<Rightarrow>
                                     serializeFrontmatter X (stripInstruxMeta (frontmatter entrySource))
                                 | None \<Rightarrow> [])
                           else [])
              in outputText res =
                   (if endsWithNewline (block @ body) then block @ body
                    else block @ body @ [CHR 0x0A])"
    by (simp add: block_def Let_def)
  from 1 h(1,2,3) f 2 show ?thesis by blast
qed

theorem output_ends_with_newline_witness:
  "endsWithNewline (outputText \<lparr> outputText = ''x  '' @ [CHR 0x0A], filesCompiled = 1, tagsUsedList = [] \<rparr>)"
proof -
  have "compile 1 nlDemoExt (nlDemoCompiler ''spaces.md'') =
     Some (Inr \<lparr> outputText = ''x  '' @ [CHR 0x0A], filesCompiled = 1, tagsUsedList = [] \<rparr>)"
    by code_simp
  from output_ends_with_newline [OF this] show ?thesis by simp
qed

text \<open>
  A body ending in two newlines is emitted with both; trailing spaces are kept
  in front of the added newline; the empty body becomes a single newline.
\<close>

theorem output_normalization_counterexample:
  "compile 1 nlDemoExt (nlDemoCompiler ''multi.md'') =
     Some (Inr \<lparr> outputText = ''x'' @ [CHR 0x0A, CHR 0x0A], filesCompiled = 1, tagsUsedList = [] \<rparr>)
   \<and> compile 1 nlDemoExt (nlDemoCompiler ''spaces.md'') =
     Some (Inr \<lparr> outputText = ''x  '' @ [CHR 0x0A], filesCompiled = 1, tagsUsedList = [] \<rparr>)
   \<and> compile 1 nlDemoExt (nlDemoCompiler ''empty.md'') =
     Some (Inr \<lparr> outputText = [CHR 0x0A], filesCompiled = 1, tagsUsedList = [] \<rparr>)"
  by code_simp

lemma stripInstruxMeta_other: "k \<noteq> ''instrux'' \<Longrightarrow> map_of (stripInstruxMeta fm) k = map_of fm k"
  unfolding stripInstruxMeta_def by (induction fm) auto

lemma stripInstruxMeta_instrux: "map_of (stripInstruxMeta fm) ''instrux'' = None"
  unfolding stripInstruxMeta_def by (induction fm) auto
lemma preserve_block_indexed:
  assumes res: "compile n X C0 = Some (Inr res)"
    and e: "entry (config C0) = Some e"
    and srcs: "sources (config C0) = Some srcs"
    and idx: "buildSourceIndex X (rootDir C0) srcs = Inr idx"
    and f: "map_of (paths idx) (normalise e) = Some f"
    and body: "compileFile n X (C0\<lparr> index := idx \<rparr>) (normalise e)
        \<lparr> compileStack = [], compiledFiles = [], tagsUsed = [] \<rparr> = Some (Inr (body, st))"
  shows "outputText res =
      (let block = (if frontmatter_output (config C0) = Some preserve \<and> stripInstruxMeta (frontmatter f) \<noteq> []
                    then trimEnd (stringify X (stripInstruxMeta (frontmatter f))) @ [CHR 0x0A, CHR 0x0A]
                    else [])
       in if endsWithNewline (block @ body) then block @ body else block @ body @ [CHR 0x0A])
    \<and> map_of (stripInstruxMeta (frontmatter f)) ''title'' = map_of (frontmatter f) ''title''
    \<and> map_of (stripInstruxMeta (frontmatter f)) ''instrux'' = None
    \<and> (stripInstruxMeta (frontmatter f) = [] \<longleftrightarrow> (\<forall>k\<in>fst ` set (frontmatter f). k = ''instrux''))"
proof -
  have "outputText res =
      (let block = (if frontmatter_output (config C0) = Some preserve \<and> stripInstruxMeta (frontmatter f) \<noteq> []
                    then trimEnd (stringify X (stripInstruxMeta (frontmatter f))) @ [CHR 0x0A, CHR 0x0A]
                    else [])
       in if endsWithNewline (block @ body) then block @ body else block @ body @ [CHR 0x0A])"
    using res e srcs idx f body unfolding compile_def Let_def serializeFrontmatter_def
    by (cases "frontmatter_output (config C0)")
       (auto split: if_splits FrontmatterOutput.splits)
  moreover have "(stripInstruxMeta (frontmatter f) = []) = (\<forall>k\<in>fst ` set (frontmatter f). k = ''instrux'')"
    unfolding stripInstruxMeta_def by (auto simp: filter_empty_conv)
  ultimately show ?thesis
    using stripInstruxMeta_other [of "''title''" "frontmatter f"] stripInstruxMeta_instrux by simp
qed

text \<open>
  C5. Pass-through metadata round-trip. The mode \<^verbatim>\<open>preserve\<close> is documented
  as keeping the entry file's frontmatter without the \<^verbatim>\<open>instrux\<close> block, and
  for an entry that \<^verbatim>\<open>index.paths\<close> has under the entry path that is what
  \<^verbatim>\<open>compile\<close> does (\<open>preserve_block_indexed\<close>): with the entry \<open>e.md\<close>
  (\<open>title: X\<close>, \<open>tags: [a]\<close>, body \<open>Body\<close>) among the sources, the output is the
  block with the title and without compiler metadata, then the body; in mode
  \<^verbatim>\<open>strip\<close> it is the body alone; and for \<open>o.md\<close>, which has compiler metadata
  only, mode \<^verbatim>\<open>preserve\<close> gives the body alone. But the block is emitted only
  under \<^verbatim>\<open>if (entrySource)\<close>, the result of \<^verbatim>\<open>index.paths.get(entryPath)\<close>: for
  the same file \<open>e.md\<close> given as an entry that the source patterns do not
  match, or spelt \<^verbatim>\<open>./e.md\<close> where the index has the key \<^verbatim>\<open>e.md\<close>, the file is
  compiled from disk and mode \<^verbatim>\<open>preserve\<close> emits no block: the title is lost.
\<close>

theorem passthrough_metadata_entry_outside_index:
  "map_of (disk fmDemoExt) (path_join fmDemoExt ''r'' ''e.md'') = Some (RegularFile ''RAW'')
   \<and> matter fmDemoExt ''RAW''
       = ([(''title'', YStr ''X''), (''instrux'', YMap [(''tags'', YList [''a''])])], ''Body'')
   \<and> compile 1 fmDemoExt (fmDemoCompiler ''e.md'' ''e.md'' (Some preserve)) =
       Some (Inr \<lparr> outputText = ''---'' @ [CHR 0x0A] @ ''title: X'' @ [CHR 0x0A] @ ''---''
                                  @ [CHR 0x0A, CHR 0x0A] @ ''Body'' @ [CHR 0x0A],
                   filesCompiled = 1, tagsUsedList = [] \<rparr>)
   \<and> compile 1 fmDemoExt (fmDemoCompiler ''e.md'' ''e.md'' (Some strip)) =
       Some (Inr \<lparr> outputText = ''Body'' @ [CHR 0x0A], filesCompiled = 1, tagsUsedList = [] \<rparr>)
   \<and> compile 1 fmDemoExt (fmDemoCompiler ''o.md'' ''o.md'' (Some preserve)) =
       Some (Inr \<lparr> outputText = ''Body'' @ [CHR 0x0A], filesCompiled = 1, tagsUsedList = [] \<rparr>)
   \<and> compile 1 fmDemoExt (fmDemoCompiler ''e.md'' ''a.md'' (Some preserve)) =
       Some (Inr \<lparr> outputText = ''Body'' @ [CHR 0x0A], filesCompiled = 1, tagsUsedList = [] \<rparr>)
   \<and> compile 1 fmDemoExt (fmDemoCompiler ''./e.md'' ''e.md'' (Some preserve)) =
       Some (Inr \<lparr> outputText = ''Body'' @ [CHR 0x0A], filesCompiled = 1, tagsUsedList = [] \<rparr>)"
  by code_simp

subsection \<open>Invariants of the recursion\<close>

lemma shapeOf_simps [simp]:
  "shapeOf None = Diverged"
  "shapeOf (Some (Inl e)) = Threw e"
  "shapeOf (Some (Inr v)) = Returned"
  by (simp_all add: shapeOf_def)

lemma good_None: "good Q I None = Q Diverged"
  by (simp add: good_def)

lemma good_Inl: "good Q I (Some (Inl e)) = Q (Threw e)"
  by (simp add: good_def)

lemma good_Inr: "good Q I (Some (Inr (v, st))) = (Q Returned \<and> I st)"
  by (simp add: good_def)

lemmas good_simps = good_None good_Inl good_Inr

lemma good_cases:
  assumes "good Q I r"
  obtains "r = None" "Q Diverged"
  | e where "r = Some (Inl e)" "Q (Threw e)"
  | v st' where "r = Some (Inr (v, st'))" "I st'"
proof (cases r)
  case None
  with assms that(1) show ?thesis by (simp add: good_simps)
next
  case (Some a)
  show ?thesis
  proof (cases a)
    case (Inl e)
    with Some assms that(2) show ?thesis by (simp add: good_simps)
  next
    case (Inr b)
    with Some assms that(3) show ?thesis by (cases b) (simp add: good_simps)
  qed
qed

lemma good_compileFiles:
  assumes ret: "Q Returned"
    and self: "\<And>p st. I st \<Longrightarrow> T p \<Longrightarrow> good Q I (self p st)"
  shows "I st \<Longrightarrow> \<forall>p\<in>set ps. T p \<Longrightarrow> good Q I (compileFiles self ps st)"
proof (induction ps arbitrary: st)
  case Nil
  with ret show ?case by (simp add: good_simps)
next
  case (Cons p ps)
  from Cons.prems have "good Q I (self p st)" by (simp add: self)
  then show ?case
  proof (cases rule: good_cases)
    case 1
    then show ?thesis by (simp add: good_simps)
  next
    case (2 e)
    then show ?thesis by (simp add: good_simps)
  next
    case (3 v st')
    with Cons.prems have "good Q I (compileFiles self ps st')" by (simp add: Cons.IH)
    then show ?thesis
      using 3 ret by (cases rule: good_cases) (simp_all add: good_simps)
  qed
qed

lemma good_renderEach:
  assumes ret: "Q Returned"
    and block: "\<And>item st. I st \<Longrightarrow> good Q I (block item st)"
  shows "I st \<Longrightarrow> good Q I (renderEach block items st)"
proof (induction items arbitrary: st)
  case Nil
  with ret show ?case by (simp add: good_simps)
next
  case (Cons item items)
  from Cons.prems have "good Q I (block item st)" by (simp add: block)
  then show ?case
  proof (cases rule: good_cases)
    case 1
    then show ?thesis by (simp add: good_simps)
  next
    case (2 e)
    then show ?thesis by (simp add: good_simps)
  next
    case (3 v st')
    then have "good Q I (renderEach block items st')" by (simp add: Cons.IH)
    then show ?thesis
      using 3 ret by (cases rule: good_cases) (simp_all add: good_simps)
  qed
qed

lemma good_compileTag:
  assumes ret: "Q Returned"
    and self: "\<And>p st. I st \<Longrightarrow> T p \<Longrightarrow> good Q I (self p st)"
    and upd: "\<And>st t. I st \<Longrightarrow> I (st\<lparr> tagsUsed := t \<rparr>)"
    and I: "I st"
    and buckets: "\<forall>fs. map_of (tags (index C)) t = Some fs \<longrightarrow> (\<forall>f\<in>set fs. T (path f))"
  shows "good Q I (compileTag self X C t st)"
proof (cases "map_of (tags (index C)) t")
  case None
  with ret I upd show ?thesis by (simp add: compileTag_def good_simps)
next
  case (Some fs)
  show ?thesis
  proof (cases "fs = []")
    case True
    with Some ret I upd show ?thesis by (simp add: compileTag_def good_simps)
  next
    case False
    have "\<forall>p\<in>set (map path (sortSourceFiles X fs)). T p"
      using buckets Some by (auto simp: set_sortSourceFiles)
    with I upd have "good Q I (compileFiles self (map path (sortSourceFiles X fs))
        (st\<lparr> tagsUsed := set_add t (tagsUsed st) \<rparr>))"
      by (intro good_compileFiles [OF ret self]) auto
    then show ?thesis
      using Some False ret
      by (cases rule: good_cases) (simp_all add: compileTag_def good_simps)
  qed
qed

lemma good_renderNodes_aux:
  assumes ret: "Q Returned"
    and each: "\<And>x st. x \<in> set ns \<Longrightarrow> I st \<Longrightarrow> good Q I (renderNode self X C meta ctx x st)"
  shows "I st \<Longrightarrow> good Q I (renderNodes self X C meta ctx ns st)"
  using each
proof (induction ns arbitrary: st)
  case Nil
  with ret show ?case by (simp add: good_simps)
next
  case (Cons x xs)
  from Cons.prems have "good Q I (renderNode self X C meta ctx x st)" by simp
  then show ?case
  proof (cases rule: good_cases)
    case 1
    then show ?thesis by (simp add: good_simps)
  next
    case (2 e)
    then show ?thesis by (simp add: good_simps)
  next
    case (3 v st')
    with Cons.prems have "good Q I (renderNodes self X C meta ctx xs st')"
      by (intro Cons.IH) simp_all
    then show ?thesis
      using 3 ret by (cases rule: good_cases) (simp_all add: good_simps)
  qed
qed

lemma good_renderNode:
  assumes ret: "Q Returned"
    and self: "\<And>p st. I st \<Longrightarrow> T p \<Longrightarrow> good Q I (self p st)"
    and upd: "\<And>st t. I st \<Longrightarrow> I (st\<lparr> tagsUsed := t \<rparr>)"
  shows "I st \<Longrightarrow> \<forall>p\<in>set (callees C x). T p \<Longrightarrow> good Q I (renderNode self X C meta ctx x st)"
proof (induction x arbitrary: ctx st)
  case (Text s)
  with ret show ?case by (simp add: good_simps)
next
  case (TagInc t)
  from TagInc.prems(2)
  have "\<forall>fs. map_of (tags (index C)) t = Some fs \<longrightarrow> (\<forall>f\<in>set fs. T (path f))"
    by simp
  from good_compileTag [OF ret self upd TagInc.prems(1) this]
  have "good Q I (compileTag self X C t st)" by simp
  then show ?case
    using ret by (cases rule: good_cases) (auto simp add: good_simps)
next
  case (FileInc p)
  then show ?case by (simp add: self)
next
  case (MetaKey k)
  with ret show ?case by (simp add: good_simps)
next
  case (Var ks)
  with ret show ?case by (simp add: good_simps)
next
  case (EachTagged t body)
  from EachTagged.prems(2)
  have "\<forall>fs. map_of (tags (index C)) t = Some fs \<longrightarrow> (\<forall>f\<in>set fs. T (path f))"
    by simp
  from good_compileTag [OF ret self upd EachTagged.prems(1) this]
  have "good Q I (compileTag self X C t st)" by simp
  then show ?case
  proof (cases rule: good_cases)
    case 1
    then show ?thesis by (simp add: good_simps)
  next
    case (2 e)
    then show ?thesis by (simp add: good_simps)
  next
    case (3 v st')
    obtain fs rendered where v: "v = (fs, rendered)" by (cases v)
    have block: "\<And>item st. I st \<Longrightarrow> good Q I (renderNodes self X C meta item body st)"
    proof (rule good_renderNodes_aux [where Q=Q and I=I, OF ret])
      fix item st x st2
      assume "x \<in> set body" "I st2"
      with EachTagged.prems(2) show "good Q I (renderNode self X C meta item x st2)"
        by (intro EachTagged.IH) auto
    qed
    from good_renderEach [where Q=Q and I=I, OF ret block 3(2)]
    show ?thesis using 3(1) v by simp
  qed
qed

lemma good_renderNodes:
  assumes ret: "Q Returned"
    and self: "\<And>p st. I st \<Longrightarrow> T p \<Longrightarrow> good Q I (self p st)"
    and upd: "\<And>st t. I st \<Longrightarrow> I (st\<lparr> tagsUsed := t \<rparr>)"
    and I: "I st"
    and ns: "\<forall>p\<in>set (concat (map (callees C) ns)). T p"
  shows "good Q I (renderNodes self X C meta ctx ns st)"
proof (rule good_renderNodes_aux [where Q=Q and I=I, OF ret _ I])
  fix x st2
  assume "x \<in> set ns" "I st2"
  with ns show "good Q I (renderNode self X C meta ctx x st2)"
    by (intro good_renderNode [OF ret self upd]) auto
qed

lemma resolveContent_FileNotFound:
  "resolveContent X C p = Inl (FileNotFound q) \<longleftrightarrow> (q = p \<and> absent X C p)"
  by (auto simp: resolveContent_def absent_def Let_def split: option.splits dirent.splits)

lemma resolveContent_Inl:
  "resolveContent X C p = Inl e \<Longrightarrow> e = FileNotFound p \<or> (\<exists>a. e = ReadError a)"
  by (auto simp: resolveContent_def Let_def split: option.splits dirent.splits)

lemma set_delete_set_add: "p \<notin> set S \<Longrightarrow> set_delete p (set_add p S) = S"
  by (simp add: set_delete_def set_add_def)

lemma compileFile_good_stack:
  "good (\<lambda>s. True) (\<lambda>s. compileStack s = compileStack st) (compileFile n X C p st)"
proof (induction n arbitrary: p st)
  case 0
  show ?case by (simp add: good_simps)
next
  case (Suc n)
  let ?p = "normalise p"
  show ?case
  proof (cases "?p \<in> set (compileStack st)")
    case True
    then show ?thesis by (simp add: good_simps)
  next
    case False
    let ?st1 = "st\<lparr> compileStack := set_add ?p (compileStack st),
                     compiledFiles := set_add ?p (compiledFiles st) \<rparr>"
    show ?thesis
    proof (cases "resolveContent X C ?p")
      case (Inl e)
      with False show ?thesis by (simp add: good_simps)
    next
      case (Inr b)
      obtain contents meta where b: "b = (contents, meta)" by (cases b)
      let ?I = "\<lambda>s. compileStack s = compileStack ?st1"
      have self: "\<And>q s. ?I s \<Longrightarrow> True \<Longrightarrow> good (\<lambda>s. True) ?I (compileFile n X C q s)"
        using Suc.IH by metis
      have "good (\<lambda>s. True) ?I
          (renderNodes (compileFile n X C) X C meta (rootContext C meta)
             (hbs_parse X contents) ?st1)"
        by (rule good_renderNodes [where T="\<lambda>p. True" and I="?I" and Q="\<lambda>s. True", OF _ self])
           simp_all
      then show ?thesis
        using False Inr b
        by (cases rule: good_cases) (simp_all add: good_simps set_delete_set_add)
    qed
  qed
qed

lemma compileFile_stack:
  "compileFile n X C p st = Some (Inr (r, st')) \<Longrightarrow> compileStack st' = compileStack st"
  using compileFile_good_stack [of st n X C p] by (simp add: good_def)

lemma renderNodes_stack:
  assumes "renderNodes (compileFile n X C) X C meta ctx ns st = Some (Inr (r, st'))"
  shows "compileStack st' = compileStack st"
proof -
  let ?I = "\<lambda>s. compileStack s = compileStack st"
  have self: "\<And>q s. ?I s \<Longrightarrow> True \<Longrightarrow> good (\<lambda>s. True) ?I (compileFile n X C q s)"
    using compileFile_good_stack by metis
  have "good (\<lambda>s. True) ?I (renderNodes (compileFile n X C) X C meta ctx ns st)"
    by (rule good_renderNodes [where T="\<lambda>p. True" and I="?I" and Q="\<lambda>s. True", OF _ self])
       simp_all
  with assms show ?thesis by (simp add: good_def)
qed

lemma compileFile_good_notFound:
  "good (notFoundOk X C) (\<lambda>s. True) (compileFile n X C p st)"
proof (induction n arbitrary: p st)
  case 0
  show ?case by (simp add: good_simps notFoundOk_def)
next
  case (Suc n)
  let ?p = "normalise p"
  show ?case
  proof (cases "?p \<in> set (compileStack st)")
    case True
    then show ?thesis by (simp add: good_simps notFoundOk_def)
  next
    case False
    let ?st1 = "st\<lparr> compileStack := set_add ?p (compileStack st),
                     compiledFiles := set_add ?p (compiledFiles st) \<rparr>"
    show ?thesis
    proof (cases "resolveContent X C ?p")
      case (Inl e)
      then have "\<forall>q. e = FileNotFound q \<longrightarrow> absent X C q"
        by (auto simp: resolveContent_FileNotFound)
      with False Inl show ?thesis by (simp add: good_simps notFoundOk_def split: error.splits)
    next
      case (Inr b)
      obtain contents meta where b: "b = (contents, meta)" by (cases b)
      have self: "\<And>q s. True \<Longrightarrow> True \<Longrightarrow> good (notFoundOk X C) (\<lambda>s. True) (compileFile n X C q s)"
        using Suc.IH by simp
      have "good (notFoundOk X C) (\<lambda>s. True)
          (renderNodes (compileFile n X C) X C meta (rootContext C meta)
             (hbs_parse X contents) ?st1)"
        by (rule good_renderNodes [where T="\<lambda>p. True" and I="\<lambda>s. True" and Q="notFoundOk X C", OF _ self])
           (simp_all add: notFoundOk_def)
      then show ?thesis
        using False Inr b
        by (cases rule: good_cases) (simp_all add: good_simps notFoundOk_def)
    qed
  qed
qed

lemma compileFile_FileNotFound:
  "compileFile n X C p st = Some (Inl (FileNotFound q)) \<Longrightarrow> absent X C q"
  using compileFile_good_notFound [of X C n p st] by (simp add: good_def notFoundOk_def)
subsection \<open>Content resolution\<close>

lemma compileFile_renders:
  assumes stack: "normalise relPath \<notin> set (compileStack st)"
    and res: "resolveContent X C (normalise relPath) = Inr (contents, meta)"
  shows "compileFile (Suc n) X C relPath st =
           (case renderNodes (compileFile n X C) X C meta (rootContext C meta) (hbs_parse X contents)
                   (st\<lparr> compileStack := compileStack st @ [normalise relPath],
                        compiledFiles := set_add (normalise relPath) (compiledFiles st) \<rparr>) of
              None \<Rightarrow> None
            | Some (Inl e) \<Rightarrow> Some (Inl e)
            | Some (Inr (rendered, st2)) \<Rightarrow>
                Some (Inr (rendered, st2\<lparr> compileStack := compileStack st \<rparr>)))"
proof -
  let ?p = "normalise relPath"
  let ?st1 = "st\<lparr> compileStack := compileStack st @ [?p],
                   compiledFiles := set_add ?p (compiledFiles st) \<rparr>"
  let ?r = "renderNodes (compileFile n X C) X C meta (rootContext C meta) (hbs_parse X contents) ?st1"
  have st1: "st\<lparr> compileStack := set_add ?p (compileStack st),
                   compiledFiles := set_add ?p (compiledFiles st) \<rparr> = ?st1"
    using stack by (simp add: set_add_def)
  have del: "\<And>r st2. ?r = Some (Inr (r, st2)) \<Longrightarrow>
      set_delete ?p (compileStack st2) = compileStack st"
  proof -
    fix r st2 assume "?r = Some (Inr (r, st2))"
    from renderNodes_stack [OF this] have "compileStack st2 = compileStack st @ [?p]" by simp
    with stack show "set_delete ?p (compileStack st2) = compileStack st"
      by (simp add: set_delete_def)
  qed
  show ?thesis
    using stack del
    by (simp add: res st1 split: option.splits sum.splits prod.splits)
qed

text \<open>
  C6. File resolution source and file-not-found. For a path that is not being
  resolved already: if the normalised path is in the index, \<^verbatim>\<open>compileFile\<close>
  renders the content of the indexed file, with the indexed frontmatter as
  metadata; if it is not in the index but a file on disk, \<^verbatim>\<open>compileFile\<close>
  renders the content that the file read from disk splits into, with empty
  metadata; and it throws the file-not-found error naming the normalised path
  if and only if the path is in neither (nothing exists at it).
\<close>

theorem file_resolution_source:
  assumes "normalise relPath \<notin> set (compileStack st)"
  shows "(\<forall>f. map_of (paths (index C)) (normalise relPath) = Some f \<longrightarrow>
            resolveContent X C (normalise relPath) = Inr (content f, frontmatter f)
          \<and> compileFile (Suc n) X C relPath st =
              (case renderNodes (compileFile n X C) X C (frontmatter f)
                      (rootContext C (frontmatter f)) (hbs_parse X (content f))
                      (st\<lparr> compileStack := compileStack st @ [normalise relPath],
                           compiledFiles := set_add (normalise relPath) (compiledFiles st) \<rparr>) of
                 None \<Rightarrow> None
               | Some (Inl e) \<Rightarrow> Some (Inl e)
               | Some (Inr (rendered, st2)) \<Rightarrow>
                   Some (Inr (rendered, st2\<lparr> compileStack := compileStack st \<rparr>))))
       \<and> (\<forall>raw. map_of (paths (index C)) (normalise relPath) = None
               \<and> map_of (disk X) (path_join X (rootDir C) (normalise relPath))
                    = Some (RegularFile raw) \<longrightarrow>
            resolveContent X C (normalise relPath) = Inr (snd (matter X raw), [])
          \<and> compileFile (Suc n) X C relPath st =
              (case renderNodes (compileFile n X C) X C [] (rootContext C [])
                      (hbs_parse X (snd (matter X raw)))
                      (st\<lparr> compileStack := compileStack st @ [normalise relPath],
                           compiledFiles := set_add (normalise relPath) (compiledFiles st) \<rparr>) of
                 None \<Rightarrow> None
               | Some (Inl e) \<Rightarrow> Some (Inl e)
               | Some (Inr (rendered, st2)) \<Rightarrow>
                   Some (Inr (rendered, st2\<lparr> compileStack := compileStack st \<rparr>))))
       \<and> (compileFile (Suc n) X C relPath st = Some (Inl (FileNotFound (normalise relPath)))
            \<longleftrightarrow> map_of (paths (index C)) (normalise relPath) = None
               \<and> map_of (disk X) (path_join X (rootDir C) (normalise relPath)) = None)"
proof -
  let ?p = "normalise relPath"
  have a: "\<forall>f. map_of (paths (index C)) ?p = Some f \<longrightarrow>
            resolveContent X C ?p = Inr (content f, frontmatter f)
          \<and> compileFile (Suc n) X C relPath st =
              (case renderNodes (compileFile n X C) X C (frontmatter f)
                      (rootContext C (frontmatter f)) (hbs_parse X (content f))
                      (st\<lparr> compileStack := compileStack st @ [?p],
                           compiledFiles := set_add ?p (compiledFiles st) \<rparr>) of
                 None \<Rightarrow> None
               | Some (Inl e) \<Rightarrow> Some (Inl e)
               | Some (Inr (rendered, st2)) \<Rightarrow>
                   Some (Inr (rendered, st2\<lparr> compileStack := compileStack st \<rparr>)))"
  proof (intro allI impI)
    fix f assume f: "map_of (paths (index C)) ?p = Some f"
    then have r: "resolveContent X C ?p = Inr (content f, frontmatter f)"
      by (simp add: resolveContent_def)
    from r compileFile_renders [OF assms r, of n]
    show "resolveContent X C ?p = Inr (content f, frontmatter f)
          \<and> compileFile (Suc n) X C relPath st =
              (case renderNodes (compileFile n X C) X C (frontmatter f)
                      (rootContext C (frontmatter f)) (hbs_parse X (content f))
                      (st\<lparr> compileStack := compileStack st @ [?p],
                           compiledFiles := set_add ?p (compiledFiles st) \<rparr>) of
                 None \<Rightarrow> None
               | Some (Inl e) \<Rightarrow> Some (Inl e)
               | Some (Inr (rendered, st2)) \<Rightarrow>
                   Some (Inr (rendered, st2\<lparr> compileStack := compileStack st \<rparr>)))"
      by (rule conjI)
  qed
  have b: "\<forall>raw. map_of (paths (index C)) ?p = None
               \<and> map_of (disk X) (path_join X (rootDir C) ?p) = Some (RegularFile raw) \<longrightarrow>
            resolveContent X C ?p = Inr (snd (matter X raw), [])
          \<and> compileFile (Suc n) X C relPath st =
              (case renderNodes (compileFile n X C) X C [] (rootContext C [])
                      (hbs_parse X (snd (matter X raw)))
                      (st\<lparr> compileStack := compileStack st @ [?p],
                           compiledFiles := set_add ?p (compiledFiles st) \<rparr>) of
                 None \<Rightarrow> None
               | Some (Inl e) \<Rightarrow> Some (Inl e)
               | Some (Inr (rendered, st2)) \<Rightarrow>
                   Some (Inr (rendered, st2\<lparr> compileStack := compileStack st \<rparr>)))"
  proof (intro allI impI)
    fix raw
    assume "map_of (paths (index C)) ?p = None
        \<and> map_of (disk X) (path_join X (rootDir C) ?p) = Some (RegularFile raw)"
    then have r: "resolveContent X C ?p = Inr (snd (matter X raw), [])"
      by (simp add: resolveContent_def)
    from r compileFile_renders [OF assms r, of n]
    show "resolveContent X C ?p = Inr (snd (matter X raw), [])
          \<and> compileFile (Suc n) X C relPath st =
              (case renderNodes (compileFile n X C) X C [] (rootContext C [])
                      (hbs_parse X (snd (matter X raw)))
                      (st\<lparr> compileStack := compileStack st @ [?p],
                           compiledFiles := set_add ?p (compiledFiles st) \<rparr>) of
                 None \<Rightarrow> None
               | Some (Inl e) \<Rightarrow> Some (Inl e)
               | Some (Inr (rendered, st2)) \<Rightarrow>
                   Some (Inr (rendered, st2\<lparr> compileStack := compileStack st \<rparr>)))"
      by (rule conjI)
  qed
  have c: "compileFile (Suc n) X C relPath st = Some (Inl (FileNotFound ?p))
            \<longleftrightarrow> map_of (paths (index C)) ?p = None
               \<and> map_of (disk X) (path_join X (rootDir C) ?p) = None"
  proof
    assume "compileFile (Suc n) X C relPath st = Some (Inl (FileNotFound ?p))"
    from compileFile_FileNotFound [OF this]
    show "map_of (paths (index C)) ?p = None \<and> map_of (disk X) (path_join X (rootDir C) ?p) = None"
      by (simp add: absent_def)
  next
    assume "map_of (paths (index C)) ?p = None \<and> map_of (disk X) (path_join X (rootDir C) ?p) = None"
    then have "resolveContent X C ?p = Inl (FileNotFound ?p)"
      by (simp add: resolveContent_FileNotFound absent_def)
    with assms show "compileFile (Suc n) X C relPath st = Some (Inl (FileNotFound ?p))"
      by simp
  qed
  from a b c show ?thesis by blast
qed

text \<open>
  The indexed file \<open>in.md\<close> and the file \<open>out.md\<close>, which is on disk only, have
  the same text, with the title \<open>T\<close> in the frontmatter and the template
  \<^verbatim>\<open>t={{meta "title"}}\<close>. The first compiles to \<open>t=T\<close>, from the indexed content
  and frontmatter; the second compiles to \<open>t=\<close>, from the content read from
  disk; and \<open>gone.md\<close>, which is in neither, throws the error naming it.
\<close>

theorem file_resolution_source_witness:
  "compileFile 1 diskDemoExt diskDemoCompiler ''in.md'' freshState =
       Some (Inr (''t=T'', \<lparr> compileStack = [], compiledFiles = [''in.md''], tagsUsed = [] \<rparr>))
   \<and> compileFile 1 diskDemoExt diskDemoCompiler ''out.md'' freshState =
       Some (Inr (''t='', \<lparr> compileStack = [], compiledFiles = [''out.md''], tagsUsed = [] \<rparr>))
   \<and> compileFile 1 diskDemoExt diskDemoCompiler ''gone.md'' freshState =
       Some (Inl (FileNotFound ''gone.md''))"
proof -
  let ?X = diskDemoExt and ?C = diskDemoCompiler
  have s: "normalise ''in.md'' \<notin> set (compileStack freshState)"
    "normalise ''out.md'' \<notin> set (compileStack freshState)"
    "normalise ''gone.md'' \<notin> set (compileStack freshState)"
    by (simp_all add: freshState_def)
  have n: "normalise ''in.md'' = ''in.md''" "normalise ''out.md'' = ''out.md''"
    "normalise ''gone.md'' = ''gone.md''"
    by code_simp+
  have i: "map_of (paths (index ?C)) (normalise ''in.md'') = Some diskDemoFile"
    "hbs_parse ?X (content diskDemoFile) = [Text ''t='', MetaKey ''title'']"
    "frontmatter diskDemoFile = [(''title'', YStr ''T'')]"
    by code_simp+
  have d: "map_of (paths (index ?C)) (normalise ''out.md'') = None
      \<and> map_of (disk ?X) (path_join ?X (rootDir ?C) (normalise ''out.md'')) = Some (RegularFile ''RAW'')"
    "hbs_parse ?X (snd (matter ?X ''RAW'')) = [Text ''t='', MetaKey ''title'']"
    by code_simp+
  have g: "map_of (paths (index ?C)) (normalise ''gone.md'') = None
      \<and> map_of (disk ?X) (path_join ?X (rootDir ?C) (normalise ''gone.md'')) = None"
    by code_simp
  have ri: "renderNodes (compileFile 0 ?X ?C) ?X ?C [(''title'', YStr ''T'')]
      (rootContext ?C [(''title'', YStr ''T'')]) [Text ''t='', MetaKey ''title'']
      (freshState\<lparr> compileStack := compileStack freshState @ [''in.md''],
           compiledFiles := set_add ''in.md'' (compiledFiles freshState) \<rparr>)
      = Some (Inr (''t=T'', \<lparr> compileStack = [''in.md''], compiledFiles = [''in.md''], tagsUsed = [] \<rparr>))"
    by (simp add: freshState_def set_add_def metaHelper_def emitValue_def toString_def)
  have rd: "renderNodes (compileFile 0 ?X ?C) ?X ?C [] (rootContext ?C []) [Text ''t='', MetaKey ''title'']
      (freshState\<lparr> compileStack := compileStack freshState @ [''out.md''],
           compiledFiles := set_add ''out.md'' (compiledFiles freshState) \<rparr>)
      = Some (Inr (''t='', \<lparr> compileStack = [''out.md''], compiledFiles = [''out.md''], tagsUsed = [] \<rparr>))"
    by (simp add: freshState_def set_add_def metaHelper_def emitValue_def toString_def
        objectPrototype_def)
  note a = file_resolution_source [OF s(1), of ?C ?X 0, THEN conjunct1, rule_format, OF i(1),
      THEN conjunct2]
  note b = file_resolution_source [OF s(2), of ?C ?X 0, THEN conjunct2, THEN conjunct1, rule_format,
      OF d(1), THEN conjunct2]
  note c = file_resolution_source [OF s(3), of ?C ?X 0, THEN conjunct2, THEN conjunct2]
  have 1: "compileFile (Suc 0) ?X ?C ''in.md'' freshState =
       Some (Inr (''t=T'', \<lparr> compileStack = [], compiledFiles = [''in.md''], tagsUsed = [] \<rparr>))"
    unfolding a n i ri by (simp add: freshState_def)
  have 2: "compileFile (Suc 0) ?X ?C ''out.md'' freshState =
       Some (Inr (''t='', \<lparr> compileStack = [], compiledFiles = [''out.md''], tagsUsed = [] \<rparr>))"
    unfolding b n d rd by (simp add: freshState_def)
  have 3: "compileFile (Suc 0) ?X ?C ''gone.md'' freshState = Some (Inl (FileNotFound ''gone.md''))"
    using c g unfolding n by blast
  from 1 2 3 show ?thesis by (simp only: One_nat_def simp_thms)
qed

lemma metaHelper_empty:
  "metaHelper [] key = (case objectPrototype key of Some m \<Rightarrow> m | None \<Rightarrow> Data (YStr []))"
  by (simp add: metaHelper_def)

lemma emitValue_empty: "emitValue X (Data (YStr [])) = []"
  by (simp add: emitValue_def toString_def)

lemma renderEach_cong:
  "(\<And>item st. block item st = block' item st) \<Longrightarrow> renderEach block items st = renderEach block' items st"
  by (induction items arbitrary: st) (simp_all split: option.splits sum.splits)

lemma renderNodes_map_cong:
  assumes "\<And>x st. x \<in> set ns \<Longrightarrow> renderNode self X C meta ctx (g x) st = renderNode self X C meta ctx x st"
  shows "renderNodes self X C meta ctx (map g ns) st = renderNodes self X C meta ctx ns st"
  using assms by (induction ns arbitrary: st) (simp_all split: option.splits sum.splits)

lemma renderNode_eraseMeta:
  "renderNode self X C [] ctx (eraseMeta x) st = renderNode self X C [] ctx x st"
proof (induction x arbitrary: ctx st)
  case (EachTagged t body)
  have "\<And>item st. renderNodes self X C [] item (map eraseMeta body) st
      = renderNodes self X C [] item body st"
    by (rule renderNodes_map_cong) (rule EachTagged.IH)
  then have eq: "renderEach (\<lambda>item. renderNodes self X C [] item (map eraseMeta body))
      = renderEach (\<lambda>item. renderNodes self X C [] item body)"
    by (intro ext renderEach_cong)
  show ?case unfolding eraseMeta.simps renderNode.simps eq by (rule refl)
qed (simp_all add: metaHelper_empty emitValue_empty)

text \<open>
  C9, amended. A file resolved through the disk fallback is rendered with the
  empty metadata object: the frontmatter parsed from the file does not occur in
  the result, which is that of the template with every \<^verbatim>\<open>meta\<close> directive
  replaced by the empty text, but for the directives whose key names a member
  of \<^verbatim>\<open>Object.prototype\<close>. Under the empty metadata object a \<^verbatim>\<open>meta\<close> directive
  yields the empty string for every key that is not such a name, in every
  context; for a key that is, it yields the text of the member that the empty
  object inherits.
\<close>

theorem disk_fallback_metadata_empty:
  assumes stack: "normalise relPath \<notin> set (compileStack st)"
    and noidx: "map_of (paths (index C)) (normalise relPath) = None"
    and raw: "map_of (disk X) (path_join X (rootDir C) (normalise relPath)) = Some (RegularFile raw)"
  shows "compileFile (Suc n) X C relPath st =
           (case renderNodes (compileFile n X C) X C [] (rootContext C [])
                   (map eraseMeta (hbs_parse X (snd (matter X raw))))
                   (st\<lparr> compileStack := compileStack st @ [normalise relPath],
                        compiledFiles := set_add (normalise relPath) (compiledFiles st) \<rparr>) of
              None \<Rightarrow> None
            | Some (Inl e) \<Rightarrow> Some (Inl e)
            | Some (Inr (rendered, st2)) \<Rightarrow>
                Some (Inr (rendered, st2\<lparr> compileStack := compileStack st \<rparr>)))
       \<and> (objectPrototype key = None \<longrightarrow>
            renderNode self X C [] ctx (MetaKey key) st' = Some (Inr ([], st')))
       \<and> (\<forall>m. objectPrototype key = Some m \<longrightarrow>
            renderNode self X C [] ctx (MetaKey key) st' = Some (Inr (emitValue X m, st')))"
proof -
  let ?p = "normalise relPath"
  let ?st1 = "st\<lparr> compileStack := compileStack st @ [?p],
                   compiledFiles := set_add ?p (compiledFiles st) \<rparr>"
  let ?ns = "hbs_parse X (snd (matter X raw))"
  have res: "resolveContent X C ?p = Inr (snd (matter X raw), [])"
    using noidx raw by (simp add: resolveContent_def)
  have er: "renderNodes (compileFile n X C) X C [] (rootContext C []) (map eraseMeta ?ns) ?st1
      = renderNodes (compileFile n X C) X C [] (rootContext C []) ?ns ?st1"
    by (rule renderNodes_map_cong) (rule renderNode_eraseMeta)
  have a: "compileFile (Suc n) X C relPath st =
           (case renderNodes (compileFile n X C) X C [] (rootContext C []) (map eraseMeta ?ns) ?st1 of
              None \<Rightarrow> None
            | Some (Inl e) \<Rightarrow> Some (Inl e)
            | Some (Inr (rendered, st2)) \<Rightarrow>
                Some (Inr (rendered, st2\<lparr> compileStack := compileStack st \<rparr>)))"
    unfolding er by (rule compileFile_renders [OF stack res])
  have b: "objectPrototype key = None \<longrightarrow>
            renderNode self X C [] ctx (MetaKey key) st' = Some (Inr ([], st'))"
    by (simp add: metaHelper_empty emitValue_empty)
  have c: "\<forall>m. objectPrototype key = Some m \<longrightarrow>
            renderNode self X C [] ctx (MetaKey key) st' = Some (Inr (emitValue X m, st'))"
    by (simp add: metaHelper_empty)
  from a b c show ?thesis by blast
qed

text \<open>The file \<open>out.md\<close> has the title \<open>T\<close> on disk and the template
  \<^verbatim>\<open>t={{meta "title"}}\<close>; it renders \<open>t=\<close>. The key \<open>title\<close> is not the name of
  a member of \<^verbatim>\<open>Object.prototype\<close>; the key \<open>valueOf\<close> is, and yields the text
  of that function.\<close>

theorem disk_fallback_metadata_empty_witness:
  "map_of (fst (matter diskDemoExt ''RAW'')) ''title'' = Some (YStr ''T'')
   \<and> hbs_parse diskDemoExt (snd (matter diskDemoExt ''RAW'')) = [Text ''t='', MetaKey ''title'']
   \<and> compileFile 1 diskDemoExt diskDemoCompiler ''out.md'' freshState =
       Some (Inr (''t='', \<lparr> compileStack = [], compiledFiles = [''out.md''], tagsUsed = [] \<rparr>))
   \<and> renderNode (compileFile 0 diskDemoExt diskDemoCompiler) diskDemoExt diskDemoCompiler []
         (rootContext diskDemoCompiler []) (MetaKey ''title'') freshState = Some (Inr ([], freshState))
   \<and> renderNode (compileFile 0 diskDemoExt diskDemoCompiler) diskDemoExt diskDemoCompiler []
         (rootContext diskDemoCompiler []) (MetaKey ''valueOf'') freshState
       = Some (Inr (''function valueOf() { [native code] }'', freshState))"
proof -
  let ?X = diskDemoExt and ?C = diskDemoCompiler
  have stack: "normalise ''out.md'' \<notin> set (compileStack freshState)"
    by (simp add: freshState_def)
  have noidx: "map_of (paths (index ?C)) (normalise ''out.md'') = None"
    by code_simp
  have raw: "map_of (disk ?X) (path_join ?X (rootDir ?C) (normalise ''out.md''))
      = Some (RegularFile ''RAW'')"
    by code_simp
  have tpl: "map eraseMeta (hbs_parse ?X (snd (matter ?X ''RAW''))) = [Text ''t='', Text []]"
    by code_simp
  have r: "renderNodes (compileFile 0 ?X ?C) ?X ?C [] (rootContext ?C []) [Text ''t='', Text []]
      (freshState\<lparr> compileStack := compileStack freshState @ [normalise ''out.md''],
           compiledFiles := set_add (normalise ''out.md'') (compiledFiles freshState) \<rparr>)
      = Some (Inr (''t='', \<lparr> compileStack = [''out.md''], compiledFiles = [''out.md''], tagsUsed = [] \<rparr>))"
    by (simp add: freshState_def set_add_def normalise_def)
  have k1: "objectPrototype ''title'' = None"
    by code_simp
  have k2: "objectPrototype ''valueOf'' = Some (NativeFunction ''valueOf'')"
    by code_simp
  have e2: "emitValue ?X (NativeFunction ''valueOf'') = ''function valueOf() { [native code] }''"
    by (simp add: emitValue_def)
  note t = disk_fallback_metadata_empty [OF stack noidx raw, of 0, THEN conjunct1]
  note u = disk_fallback_metadata_empty [OF stack noidx raw, of 0 "''title''" "compileFile 0 ?X ?C"
      "rootContext ?C []" freshState, THEN conjunct2, THEN conjunct1, rule_format, OF k1]
  note v = disk_fallback_metadata_empty [OF stack noidx raw, of 0 "''valueOf''" "compileFile 0 ?X ?C"
      "rootContext ?C []" freshState, THEN conjunct2, THEN conjunct2, rule_format, OF k2]
  have "compileFile (Suc 0) ?X ?C ''out.md'' freshState =
       Some (Inr (''t='', \<lparr> compileStack = [], compiledFiles = [''out.md''], tagsUsed = [] \<rparr>))"
    unfolding t tpl r by (simp add: freshState_def)
  then have out: "compileFile 1 ?X ?C ''out.md'' freshState =
       Some (Inr (''t='', \<lparr> compileStack = [], compiledFiles = [''out.md''], tagsUsed = [] \<rparr>))"
    by (simp only: One_nat_def)
  have "map_of (fst (matter ?X ''RAW'')) ''title'' = Some (YStr ''T'')"
    "hbs_parse ?X (snd (matter ?X ''RAW'')) = [Text ''t='', MetaKey ''title'']"
    by code_simp+
  with out u v [unfolded e2] show ?thesis by (simp only: simp_thms)
qed

text \<open>
  The file \<open>proto.md\<close>, on disk only, has the template
  \<^verbatim>\<open>{{meta "constructor"}}|{{meta "__proto__"}}|{{meta "valueOf"}}\<close>: each of the
  three directives yields a text that is not empty.
\<close>

theorem disk_fallback_metadata_empty_counterexample:
  "map_of (paths (index diskDemoCompiler)) ''proto.md'' = None
   \<and> hbs_parse diskDemoExt (snd (matter diskDemoExt ''PROTO''))
       = [MetaKey ''constructor'', Text ''|'', MetaKey ''__proto__'', Text ''|'', MetaKey ''valueOf'']
   \<and> compileFile 1 diskDemoExt diskDemoCompiler ''proto.md'' freshState =
       Some (Inr (''function Object() { [native code] }|[object Object]|function valueOf() { [native code] }'',
                  \<lparr> compileStack = [], compiledFiles = [''proto.md''], tagsUsed = [] \<rparr>))"
  by code_simp

subsection \<open>Two runs compared\<close>

lemma simulates_None: "simulates R None r2"
  by (simp add: simulates_def)

lemma simulates_Inl: "simulates R (Some (Inl e)) r2 = (r2 = Some (Inl e))"
  by (simp add: simulates_def)

lemma simulates_Inr: "simulates R (Some (Inr (v, s))) r2 = (\<exists>s'. r2 = Some (Inr (v, s')) \<and> R s s')"
  by (simp add: simulates_def)

lemmas simulates_simps = simulates_None simulates_Inl simulates_Inr

lemma simulates_cases:
  assumes "simulates R r1 r2"
  obtains "r1 = None"
  | e where "r1 = Some (Inl e)" "r2 = Some (Inl e)"
  | v s s' where "r1 = Some (Inr (v, s))" "r2 = Some (Inr (v, s'))" "R s s'"
proof (cases r1)
  case None
  with that(1) show ?thesis by simp
next
  case (Some a)
  show ?thesis
  proof (cases a)
    case (Inl e)
    with Some assms that(2) show ?thesis by (simp add: simulates_simps)
  next
    case (Inr b)
    with Some assms that(3) show ?thesis by (cases b) (auto simp add: simulates_simps)
  qed
qed

lemma sim_compileFiles:
  assumes self: "\<And>p s s'. R s s' \<Longrightarrow> simulates R (self p s) (self' p s')"
  shows "R s s' \<Longrightarrow> simulates R (compileFiles self ps s) (compileFiles self' ps s')"
proof (induction ps arbitrary: s s')
  case Nil
  then show ?case by (simp add: simulates_simps)
next
  case (Cons p ps)
  from Cons.prems have "simulates R (self p s) (self' p s')" by (rule self)
  then show ?case
  proof (cases rule: simulates_cases)
    case 1
    then show ?thesis by (simp add: simulates_simps)
  next
    case (2 e)
    then show ?thesis by (simp add: simulates_simps)
  next
    case (3 v t t')
    from Cons.IH [OF 3(3)] show ?thesis
      using 3(1,2) by (cases rule: simulates_cases) (simp_all add: simulates_simps)
  qed
qed

lemma sim_renderEach:
  assumes block: "\<And>item s s'. R s s' \<Longrightarrow> simulates R (block item s) (block' item s')"
  shows "R s s' \<Longrightarrow> simulates R (renderEach block items s) (renderEach block' items s')"
proof (induction items arbitrary: s s')
  case Nil
  then show ?case by (simp add: simulates_simps)
next
  case (Cons item items)
  from Cons.prems have "simulates R (block item s) (block' item s')" by (rule block)
  then show ?case
  proof (cases rule: simulates_cases)
    case 1
    then show ?thesis by (simp add: simulates_simps)
  next
    case (2 e)
    then show ?thesis by (simp add: simulates_simps)
  next
    case (3 v t t')
    from Cons.IH [OF 3(3)] show ?thesis
      using 3(1,2) by (cases rule: simulates_cases) (simp_all add: simulates_simps)
  qed
qed

lemma sim_compileTag:
  assumes self: "\<And>p s s'. R s s' \<Longrightarrow> simulates R (self p s) (self' p s')"
    and upd: "\<And>s s' t. R s s' \<Longrightarrow>
        R (s\<lparr> tagsUsed := set_add t (tagsUsed s) \<rparr>) (s'\<lparr> tagsUsed := set_add t (tagsUsed s') \<rparr>)"
    and R: "R s s'"
  shows "simulates R (compileTag self X C t s) (compileTag self' X C t s')"
proof (cases "map_of (tags (index C)) t")
  case None
  with upd [OF R] show ?thesis by (simp add: compileTag_def simulates_simps)
next
  case (Some fs)
  show ?thesis
  proof (cases "fs = []")
    case True
    with Some upd [OF R] show ?thesis by (simp add: compileTag_def simulates_simps)
  next
    case False
    from sim_compileFiles [of R self self', OF self upd [OF R]]
    have "simulates R
        (compileFiles self (map path (sortSourceFiles X fs)) (s\<lparr> tagsUsed := set_add t (tagsUsed s) \<rparr>))
        (compileFiles self' (map path (sortSourceFiles X fs)) (s'\<lparr> tagsUsed := set_add t (tagsUsed s') \<rparr>))"
      by simp
    then show ?thesis
      using Some False
      by (cases rule: simulates_cases) (simp_all add: compileTag_def simulates_simps)
  qed
qed

lemma sim_renderNodes_aux:
  assumes each: "\<And>x s s'. x \<in> set ns \<Longrightarrow> R s s' \<Longrightarrow>
      simulates R (renderNode self X C meta ctx x s) (renderNode self' X C meta ctx x s')"
  shows "R s s' \<Longrightarrow>
      simulates R (renderNodes self X C meta ctx ns s) (renderNodes self' X C meta ctx ns s')"
  using each
proof (induction ns arbitrary: s s')
  case Nil
  then show ?case by (simp add: simulates_simps)
next
  case (Cons x xs)
  from Cons.prems have "simulates R (renderNode self X C meta ctx x s) (renderNode self' X C meta ctx x s')"
    by simp
  then show ?case
  proof (cases rule: simulates_cases)
    case 1
    then show ?thesis by (simp add: simulates_simps)
  next
    case (2 e)
    then show ?thesis by (simp add: simulates_simps)
  next
    case (3 v t t')
    from Cons.prems(2) have "simulates R (renderNodes self X C meta ctx xs t) (renderNodes self' X C meta ctx xs t')"
      by (intro Cons.IH [OF 3(3)]) simp_all
    then show ?thesis
      using 3(1,2) by (cases rule: simulates_cases) (simp_all add: simulates_simps)
  qed
qed

lemma sim_renderNode:
  assumes self: "\<And>p s s'. R s s' \<Longrightarrow> simulates R (self p s) (self' p s')"
    and upd: "\<And>s s' t. R s s' \<Longrightarrow>
        R (s\<lparr> tagsUsed := set_add t (tagsUsed s) \<rparr>) (s'\<lparr> tagsUsed := set_add t (tagsUsed s') \<rparr>)"
  shows "R s s' \<Longrightarrow>
      simulates R (renderNode self X C meta ctx x s) (renderNode self' X C meta ctx x s')"
proof (induction x arbitrary: ctx s s')
  case (Text t)
  then show ?case by (simp add: simulates_simps)
next
  case (TagInc t)
  from sim_compileTag [of R self self', OF self upd TagInc.prems]
  have "simulates R (compileTag self X C t s) (compileTag self' X C t s')" by simp
  then show ?case
    by (cases rule: simulates_cases) (auto simp add: simulates_simps)
next
  case (FileInc p)
  then show ?case by (simp add: self)
next
  case (MetaKey k)
  then show ?case by (simp add: simulates_simps)
next
  case (Var ks)
  then show ?case by (simp add: simulates_simps)
next
  case (EachTagged t body)
  from sim_compileTag [of R self self', OF self upd EachTagged.prems]
  have "simulates R (compileTag self X C t s) (compileTag self' X C t s')" by simp
  then show ?case
  proof (cases rule: simulates_cases)
    case 1
    then show ?thesis by (simp add: simulates_simps)
  next
    case (2 e)
    then show ?thesis by (simp add: simulates_simps)
  next
    case (3 v u u')
    obtain fs rendered where v: "v = (fs, rendered)" by (cases v)
    have block: "\<And>item s s'. R s s' \<Longrightarrow>
        simulates R (renderNodes self X C meta item body s) (renderNodes self' X C meta item body s')"
      by (rule sim_renderNodes_aux) (rule EachTagged.IH)
    from sim_renderEach [of R "\<lambda>item. renderNodes self X C meta item body"
        "\<lambda>item. renderNodes self' X C meta item body", OF block 3(3)]
    show ?thesis using 3(1,2) v by simp
  qed
qed

lemma sim_renderNodes:
  assumes self: "\<And>p s s'. R s s' \<Longrightarrow> simulates R (self p s) (self' p s')"
    and upd: "\<And>s s' t. R s s' \<Longrightarrow>
        R (s\<lparr> tagsUsed := set_add t (tagsUsed s) \<rparr>) (s'\<lparr> tagsUsed := set_add t (tagsUsed s') \<rparr>)"
    and R: "R s s'"
  shows "simulates R (renderNodes self X C meta ctx ns s) (renderNodes self' X C meta ctx ns s')"
  by (rule sim_renderNodes_aux [where R=R, OF _ R]) (rule sim_renderNode [of R self self', OF self upd])

lemma compileFile_Suc_unfold:
  assumes "normalise p \<notin> set (compileStack st)"
    and "resolveContent X C (normalise p) = Inr (contents, meta)"
  shows "compileFile (Suc n) X C p st =
     (case renderNodes (compileFile n X C) X C meta (rootContext C meta)
             (hbs_parse X contents)
             (st\<lparr> compileStack := set_add (normalise p) (compileStack st),
                  compiledFiles := set_add (normalise p) (compiledFiles st) \<rparr>) of
        None \<Rightarrow> None
      | Some (Inl e) \<Rightarrow> Some (Inl e)
      | Some (Inr (rendered, st2)) \<Rightarrow>
          Some (Inr (rendered, st2\<lparr> compileStack := set_delete (normalise p) (compileStack st2) \<rparr>)))"
  using assms by (simp add: Let_def)

lemma compileFile_sim_Suc:
  "simulates (=) (compileFile n X C p st) (compileFile (Suc n) X C p st)"
proof (induction n arbitrary: p st)
  case 0
  show ?case by (simp add: simulates_simps)
next
  case (Suc n)
  let ?p = "normalise p"
  show ?case
  proof (cases "?p \<in> set (compileStack st)")
    case True
    then show ?thesis by (simp add: simulates_simps)
  next
    case False
    let ?st1 = "st\<lparr> compileStack := set_add ?p (compileStack st),
                     compiledFiles := set_add ?p (compiledFiles st) \<rparr>"
    show ?thesis
    proof (cases "resolveContent X C ?p")
      case (Inl e)
      with False show ?thesis by (simp add: simulates_simps)
    next
      case (Inr b)
      obtain contents meta where b: "b = (contents, meta)" by (cases b)
      have self: "\<And>q s s'. s = s' \<Longrightarrow> simulates (=) (compileFile n X C q s) (compileFile (Suc n) X C q s')"
        using Suc.IH by simp
      have "simulates (=)
          (renderNodes (compileFile n X C) X C meta (rootContext C meta)
             (hbs_parse X contents) ?st1)
          (renderNodes (compileFile (Suc n) X C) X C meta (rootContext C meta)
             (hbs_parse X contents) ?st1)"
        by (rule sim_renderNodes [of "(=)", OF self]) simp_all
      note sim = this
      note u1 = compileFile_Suc_unfold [OF False Inr [unfolded b], of n]
      note u2 = compileFile_Suc_unfold [OF False Inr [unfolded b], of "Suc n"]
      from sim show ?thesis
        unfolding u1 u2
        by (cases rule: simulates_cases) (simp_all add: simulates_simps del: compileFile.simps)
    qed
  qed
qed

lemma compileFile_mono_Suc:
  "compileFile n X C p st = Some r \<Longrightarrow> compileFile (Suc n) X C p st = Some r"
  using compileFile_sim_Suc [of n X C p st]
  by (cases r) (auto simp: simulates_def split: prod.splits)

lemma compileFile_mono:
  "compileFile n X C p st = Some r \<Longrightarrow> n \<le> m \<Longrightarrow> compileFile m X C p st = Some r"
  by (induction m) (auto simp: le_Suc_eq dest: compileFile_mono_Suc simp del: compileFile.simps)
subsection \<open>Cycle detection\<close>

lemma chainOk_base:
  assumes "successively (pathIncludes X C) S" "distinct S" "p \<in> set S"
    "pathIncludes X C (last S) p"
  shows "chainOk X C S p (S @ [p])"
  using assms unfolding chainOk_def
  by (auto simp: successively_append_iff)

lemma chainOk_step:
  assumes "chainOk X C (S @ [p]) q chain"
  shows "chainOk X C S p chain"
  using assms unfolding chainOk_def by auto

lemma compileFile_good_cycle:
  assumes "successively (pathIncludes X C) (compileStack st)" "distinct (compileStack st)"
    "compileStack st \<noteq> [] \<longrightarrow> pathIncludes X C (last (compileStack st)) (normalise p)"
  shows "good (cycleOk X C (compileStack st) (normalise p)) (\<lambda>s. compileStack s = compileStack st)
           (compileFile n X C p st)"
  using assms
proof (induction n arbitrary: p st)
  case 0
  show ?case by (simp add: good_simps cycleOk_def)
next
  case (Suc n)
  let ?p = "normalise p"
  let ?S = "compileStack st"
  show ?case
  proof (cases "?p \<in> set ?S")
    case True
    then have "?S \<noteq> []" by auto
    with Suc.prems True have "chainOk X C ?S ?p (?S @ [?p])"
      by (intro chainOk_base) simp_all
    with True show ?thesis by (simp add: good_simps cycleOk_def)
  next
    case False
    let ?st1 = "st\<lparr> compileStack := set_add ?p ?S,
                     compiledFiles := set_add ?p (compiledFiles st) \<rparr>"
    have S1: "compileStack ?st1 = ?S @ [?p]" using False by (simp add: set_add_def)
    show ?thesis
    proof (cases "resolveContent X C ?p")
      case (Inl e)
      then have "e = FileNotFound ?p \<or> (\<exists>a. e = ReadError a)" by (rule resolveContent_Inl)
      with False Inl show ?thesis by (auto simp add: good_simps cycleOk_def)
    next
      case (Inr b)
      obtain contents meta where b: "b = (contents, meta)" by (cases b)
      let ?I = "\<lambda>s::cstate. compileStack s = ?S @ [?p]"
      let ?T = "\<lambda>q. pathIncludes X C ?p (normalise q)"
      let ?Q = "\<lambda>s. \<forall>chain. s = Threw (CircularReference chain) \<longrightarrow> chainOk X C ?S ?p chain"
      have succ: "successively (pathIncludes X C) (?S @ [?p])"
        using Suc.prems by (auto simp: successively_append_iff)
      have dist: "distinct (?S @ [?p])" using Suc.prems False by simp
      have self: "\<And>q s. ?I s \<Longrightarrow> ?T q \<Longrightarrow> good ?Q ?I (compileFile n X C q s)"
      proof -
        fix q and s :: cstate assume s: "compileStack s = ?S @ [?p]" and q: "pathIncludes X C ?p (normalise q)"
        have "good (cycleOk X C (compileStack s) (normalise q)) (\<lambda>t. compileStack t = compileStack s)
           (compileFile n X C q s)"
        proof (rule Suc.IH)
          show "successively (pathIncludes X C) (compileStack s)"
            unfolding s by (rule succ)
          show "distinct (compileStack s)"
            unfolding s by (rule dist)
          show "compileStack s \<noteq> [] \<longrightarrow> pathIncludes X C (last (compileStack s)) (normalise q)"
            unfolding s using q by simp
        qed
        then have a: "cycleOk X C (?S @ [?p]) (normalise q) (shapeOf (compileFile n X C q s))"
          and b: "\<forall>v st'. compileFile n X C q s = Some (Inr (v, st')) \<longrightarrow> compileStack st' = ?S @ [?p]"
          unfolding good_def s by blast+
        have "?Q (shapeOf (compileFile n X C q s))"
        proof (intro allI impI)
          fix chain assume "shapeOf (compileFile n X C q s) = Threw (CircularReference chain)"
          with a have "chainOk X C (?S @ [?p]) (normalise q) chain" by (simp add: cycleOk_def)
          then show "chainOk X C ?S ?p chain" by (rule chainOk_step)
        qed
        with b show "good ?Q ?I (compileFile n X C q s)" unfolding good_def by blast
      qed
      have ns: "\<forall>q\<in>set (concat (map (callees C) (hbs_parse X contents))). ?T q"
        using Inr b by (auto simp: pathIncludes_def)
      have "good ?Q ?I
          (renderNodes (compileFile n X C) X C meta (rootContext C meta)
             (hbs_parse X contents) ?st1)"
        by (rule good_renderNodes [where T="?T" and I="?I" and Q="?Q", OF _ self _ _ ns])
           (simp_all add: S1)
      note r = this
      note u = compileFile_Suc_unfold [OF False Inr [unfolded b], of n]
      from r show ?thesis
        unfolding u using False
        by (cases rule: good_cases)
           (simp_all add: good_simps cycleOk_def set_delete_def split: error.splits
              del: compileFile.simps)
    qed
  qed
qed

lemma compileFile_chain:
  assumes "compileFile n X C p freshState = Some (Inl (CircularReference chain))"
  shows "hd chain = normalise p \<and> successively (pathIncludes X C) chain
         \<and> distinct (butlast chain) \<and> last chain \<in> set (butlast chain)"
proof -
  have "good (cycleOk X C (compileStack freshState) (normalise p))
          (\<lambda>s. compileStack s = compileStack freshState) (compileFile n X C p freshState)"
    by (rule compileFile_good_cycle) (simp_all add: freshState_def)
  with assms have "chainOk X C [] (normalise p) chain"
    by (simp add: good_def cycleOk_def freshState_def)
  then show ?thesis unfolding chainOk_def by auto
qed

lemma renderNodes_mono:
  assumes "renderNodes (compileFile n X C) X C meta ctx ns st = Some r" "n \<le> m"
  shows "renderNodes (compileFile m X C) X C meta ctx ns st = Some r"
proof -
  have self: "\<And>q s s'. s = s' \<Longrightarrow> simulates (=) (compileFile n X C q s) (compileFile m X C q s')"
  proof -
    fix q s s' assume "s = (s'::cstate)"
    then show "simulates (=) (compileFile n X C q s) (compileFile m X C q s')"
      using compileFile_mono [OF _ assms(2), of X C q s]
      by (cases "compileFile n X C q s") (auto simp: simulates_def split: sum.splits)
  qed
  have "simulates (=) (renderNodes (compileFile n X C) X C meta ctx ns st)
      (renderNodes (compileFile m X C) X C meta ctx ns st)"
    by (rule sim_renderNodes [of "(=)", OF self]) simp_all
  with assms(1) show ?thesis
    by (cases r) (auto simp: simulates_def split: prod.splits)
qed

lemma renderNodes_prefix_error:
  assumes "renderNodes self X C meta ctx pre st = Some (Inr (r, st'))"
    and "renderNode self X C meta ctx x st' = Some (Inl e)"
  shows "renderNodes self X C meta ctx (pre @ x # post) st = Some (Inl e)"
  using assms
proof (induction pre arbitrary: st r)
  case Nil
  then show ?case by simp
next
  case (Cons y ys)
  from Cons.prems(1) obtain r1 s1 r2 where
    y: "renderNode self X C meta ctx y st = Some (Inr (r1, s1))"
    and ys: "renderNodes self X C meta ctx ys s1 = Some (Inr (r2, st'))"
    by (auto split: option.splits sum.splits prod.splits)
  from Cons.IH [OF ys Cons.prems(2)] y show ?case by simp
qed

lemma compileFile_include_error:
  assumes "normalise p \<notin> set (compileStack st)"
    and "resolveContent X C (normalise p) = Inr (contents, meta)"
    and "hbs_parse X contents = pre @ x # post"
    and "renderNodes (compileFile n X C) X C meta (rootContext C meta) pre
           (st\<lparr> compileStack := set_add (normalise p) (compileStack st),
                compiledFiles := set_add (normalise p) (compiledFiles st) \<rparr>) = Some (Inr (r, st'))"
    and "renderNode (compileFile n X C) X C meta (rootContext C meta) x st' = Some (Inl e)"
  shows "compileFile (Suc n) X C p st = Some (Inl e)"
  unfolding compileFile_Suc_unfold [OF assms(1,2)] assms(3)
    renderNodes_prefix_error [OF assms(4,5)]
  by simp

lemma mutual_cycle:
  assumes AB: "A \<noteq> B" and nA: "normalise A = A"
    and cA: "resolveContent X C A = Inr (contentsA, metaA)"
      "hbs_parse X contentsA = preA @ FileInc b # postA" "normalise b = B"
    and preA: "renderNodes (compileFile n X C) X C metaA (rootContext C metaA) preA
        \<lparr> compileStack = [A], compiledFiles = [A], tagsUsed = [] \<rparr> = Some (Inr (ra, sa))"
    and cB: "resolveContent X C B = Inr (contentsB, metaB)"
      "hbs_parse X contentsB = preB @ FileInc a # postB" "normalise a = A"
    and preB: "\<forall>s. compileStack s = [A, B] \<longrightarrow>
        (\<exists>r s'. renderNodes (compileFile n X C) X C metaB (rootContext C metaB) preB s
            = Some (Inr (r, s')))"
  shows "compileFile (Suc (Suc (Suc n))) X C A freshState = Some (Inl (CircularReference [A, B, A]))"
proof -
  let ?rootA = "rootContext C metaA" and ?rootB = "rootContext C metaB"
  let ?stA = "\<lparr> compileStack = [A], compiledFiles = [A], tagsUsed = [] \<rparr>"
  from renderNodes_stack [OF preA] have sa: "compileStack sa = [A]" by simp
  let ?stB = "sa\<lparr> compileStack := set_add (normalise b) (compileStack sa),
                  compiledFiles := set_add (normalise b) (compiledFiles sa) \<rparr>"
  have stB: "compileStack ?stB = [A, B]"
    using AB by (simp add: sa cA(3) set_add_def)
  with preB obtain rb sb where
    rb: "renderNodes (compileFile n X C) X C metaB ?rootB preB ?stB = Some (Inr (rb, sb))"
    by blast
  from renderNodes_stack [OF rb] stB have sb: "compileStack sb = [A, B]" by simp
  have rb': "renderNodes (compileFile (Suc n) X C) X C metaB ?rootB preB ?stB = Some (Inr (rb, sb))"
    by (rule renderNodes_mono [OF rb]) simp
  have inner: "renderNode (compileFile (Suc n) X C) X C metaB ?rootB (FileInc a) sb
      = Some (Inl (CircularReference [A, B, A]))"
    by (simp add: cB(3) sb)
  have nb: "normalise b \<notin> set (compileStack sa)"
    using AB by (simp add: sa cA(3))
  have cB': "resolveContent X C (normalise b) = Inr (contentsB, metaB)"
    by (simp add: cA(3) cB(1))
  have mid: "compileFile (Suc (Suc n)) X C b sa = Some (Inl (CircularReference [A, B, A]))"
    by (rule compileFile_include_error [OF nb cB' cB(2) rb' inner])
  then have mid': "renderNode (compileFile (Suc (Suc n)) X C) X C metaA ?rootA (FileInc b) sa
      = Some (Inl (CircularReference [A, B, A]))"
    by (simp del: compileFile.simps)
  have ra': "renderNodes (compileFile (Suc (Suc n)) X C) X C metaA ?rootA preA ?stA = Some (Inr (ra, sa))"
    by (rule renderNodes_mono [OF preA]) simp
  have st0: "freshState\<lparr> compileStack := set_add (normalise A) (compileStack freshState),
                 compiledFiles := set_add (normalise A) (compiledFiles freshState) \<rparr> = ?stA"
    by (simp add: freshState_def set_add_def nA)
  have nA': "normalise A \<notin> set (compileStack freshState)"
    by (simp add: freshState_def)
  have cA': "resolveContent X C (normalise A) = Inr (contentsA, metaA)"
    by (simp add: nA cA(1))
  show ?thesis
    by (rule compileFile_include_error [OF nA' cA' cA(2) ra' [folded st0] mid'])
qed

lemma self_cycle:
  assumes nA: "normalise A = A"
    and cA: "resolveContent X C A = Inr (contentsA, metaA)"
      "hbs_parse X contentsA = preA @ FileInc a # postA" "normalise a = A"
    and preA: "renderNodes (compileFile n X C) X C metaA (rootContext C metaA) preA
        \<lparr> compileStack = [A], compiledFiles = [A], tagsUsed = [] \<rparr> = Some (Inr (ra, sa))"
  shows "compileFile (Suc (Suc n)) X C A freshState = Some (Inl (CircularReference [A, A]))"
proof -
  let ?rootA = "rootContext C metaA"
  let ?stA = "\<lparr> compileStack = [A], compiledFiles = [A], tagsUsed = [] \<rparr>"
  from renderNodes_stack [OF preA] have sa: "compileStack sa = [A]" by simp
  have inner: "renderNode (compileFile (Suc n) X C) X C metaA ?rootA (FileInc a) sa
      = Some (Inl (CircularReference [A, A]))"
    by (simp add: cA(3) sa)
  have ra': "renderNodes (compileFile (Suc n) X C) X C metaA ?rootA preA ?stA = Some (Inr (ra, sa))"
    by (rule renderNodes_mono [OF preA]) simp
  have st0: "freshState\<lparr> compileStack := set_add (normalise A) (compileStack freshState),
                 compiledFiles := set_add (normalise A) (compiledFiles freshState) \<rparr> = ?stA"
    by (simp add: freshState_def set_add_def nA)
  have nA': "normalise A \<notin> set (compileStack freshState)"
    by (simp add: freshState_def)
  have cA': "resolveContent X C (normalise A) = Inr (contentsA, metaA)"
    by (simp add: nA cA(1))
  show ?thesis
    by (rule compileFile_include_error [OF nA' cA' cA(2) ra' [folded st0] inner])
qed
text \<open>
  C1, amended. Cycle detection. A call of \<^verbatim>\<open>compileFile\<close> for a path that is
  on the compile stack throws the circular-reference error whose chain is the
  stack followed by that path. Every chain thrown by a resolution that started
  with a fresh state begins with the entry path, each of its paths includes the
  next one, and it ends with the one path that occurs twice. When the file \<open>A\<close>
  includes the path \<open>B\<close>, the file \<open>B\<close> includes the path \<open>A\<close>, and the
  directives that precede these two includes render without an error,
  resolving \<open>A\<close> with a fresh state throws the chain \<open>[A, B, A]\<close>. When a file
  \<open>S\<close> includes its own path and the directives that precede this include render
  without an error, resolving \<open>S\<close> throws the chain \<open>[S, S]\<close>. Each of the four
  statements stands on its own.
\<close>

theorem cycle_detection:
  "(normalise p \<in> set (compileStack st) \<longrightarrow>
      compileFile (Suc j) X C p st
        = Some (Inl (CircularReference (compileStack st @ [normalise p]))))
   \<and> (compileFile k X C q freshState = Some (Inl (CircularReference chain)) \<longrightarrow>
        hd chain = normalise q
      \<and> successively (pathIncludes X C) chain
      \<and> distinct (butlast chain)
      \<and> last chain \<in> set (butlast chain))
   \<and> (A \<noteq> B \<and> normalise A = A
      \<and> resolveContent X C A = Inr (contentsA, metaA)
      \<and> hbs_parse X contentsA = preA @ FileInc b # postA \<and> normalise b = B
      \<and> renderNodes (compileFile n X C) X C metaA (rootContext C metaA) preA
           \<lparr> compileStack = [A], compiledFiles = [A], tagsUsed = [] \<rparr> = Some (Inr (ra, sa))
      \<and> resolveContent X C B = Inr (contentsB, metaB)
      \<and> hbs_parse X contentsB = preB @ FileInc a # postB \<and> normalise a = A
      \<and> (\<forall>s. compileStack s = [A, B] \<longrightarrow>
            (\<exists>r s'. renderNodes (compileFile n X C) X C metaB (rootContext C metaB) preB s
                = Some (Inr (r, s'))))
      \<longrightarrow> (\<forall>m\<ge>n + 3. compileFile m X C A freshState = Some (Inl (CircularReference [A, B, A]))))
   \<and> (normalise S = S
      \<and> resolveContent X C S = Inr (contentsS, metaS)
      \<and> hbs_parse X contentsS = preS @ FileInc s # postS \<and> normalise s = S
      \<and> renderNodes (compileFile n' X C) X C metaS (rootContext C metaS) preS
           \<lparr> compileStack = [S], compiledFiles = [S], tagsUsed = [] \<rparr> = Some (Inr (rs, ss))
      \<longrightarrow> (\<forall>m\<ge>n' + 2. compileFile m X C S freshState = Some (Inl (CircularReference [S, S]))))"
proof (intro conjI impI)
  assume "normalise p \<in> set (compileStack st)"
  then show "compileFile (Suc j) X C p st
        = Some (Inl (CircularReference (compileStack st @ [normalise p])))"
    by simp
next
  assume thrown: "compileFile k X C q freshState = Some (Inl (CircularReference chain))"
  note c = compileFile_chain [OF thrown]
  from c show "hd chain = normalise q" by blast
  from c show "successively (pathIncludes X C) chain" by blast
  from c show "distinct (butlast chain)" by blast
  from c show "last chain \<in> set (butlast chain)" by blast
next
  assume h: "A \<noteq> B \<and> normalise A = A
      \<and> resolveContent X C A = Inr (contentsA, metaA)
      \<and> hbs_parse X contentsA = preA @ FileInc b # postA \<and> normalise b = B
      \<and> renderNodes (compileFile n X C) X C metaA (rootContext C metaA) preA
           \<lparr> compileStack = [A], compiledFiles = [A], tagsUsed = [] \<rparr> = Some (Inr (ra, sa))
      \<and> resolveContent X C B = Inr (contentsB, metaB)
      \<and> hbs_parse X contentsB = preB @ FileInc a # postB \<and> normalise a = A
      \<and> (\<forall>s. compileStack s = [A, B] \<longrightarrow>
            (\<exists>r s'. renderNodes (compileFile n X C) X C metaB (rootContext C metaB) preB s
                = Some (Inr (r, s'))))"
  then have AB: "A \<noteq> B" "normalise A = A"
    and cA: "resolveContent X C A = Inr (contentsA, metaA)"
      "hbs_parse X contentsA = preA @ FileInc b # postA" "normalise b = B"
    and preA: "renderNodes (compileFile n X C) X C metaA (rootContext C metaA) preA
           \<lparr> compileStack = [A], compiledFiles = [A], tagsUsed = [] \<rparr> = Some (Inr (ra, sa))"
    and cB: "resolveContent X C B = Inr (contentsB, metaB)"
      "hbs_parse X contentsB = preB @ FileInc a # postB" "normalise a = A"
    and preB: "\<forall>s. compileStack s = [A, B] \<longrightarrow>
            (\<exists>r s'. renderNodes (compileFile n X C) X C metaB (rootContext C metaB) preB s
                = Some (Inr (r, s')))"
    by blast+
  have "compileFile (Suc (Suc (Suc n))) X C A freshState = Some (Inl (CircularReference [A, B, A]))"
    by (rule mutual_cycle [OF AB cA preA cB preB])
  then show "\<forall>m\<ge>n + 3. compileFile m X C A freshState = Some (Inl (CircularReference [A, B, A]))"
    by (auto intro: compileFile_mono simp del: compileFile.simps)
next
  assume h: "normalise S = S
      \<and> resolveContent X C S = Inr (contentsS, metaS)
      \<and> hbs_parse X contentsS = preS @ FileInc s # postS \<and> normalise s = S
      \<and> renderNodes (compileFile n' X C) X C metaS (rootContext C metaS) preS
           \<lparr> compileStack = [S], compiledFiles = [S], tagsUsed = [] \<rparr> = Some (Inr (rs, ss))"
  then have cS: "normalise S = S" "resolveContent X C S = Inr (contentsS, metaS)"
      "hbs_parse X contentsS = preS @ FileInc s # postS" "normalise s = S"
    and preS: "renderNodes (compileFile n' X C) X C metaS (rootContext C metaS) preS
           \<lparr> compileStack = [S], compiledFiles = [S], tagsUsed = [] \<rparr> = Some (Inr (rs, ss))"
    by blast+
  have "compileFile (Suc (Suc n')) X C S freshState = Some (Inl (CircularReference [S, S]))"
    by (rule self_cycle [OF cS preS])
  then show "\<forall>m\<ge>n' + 2. compileFile m X C S freshState = Some (Inl (CircularReference [S, S]))"
    by (auto intro: compileFile_mono simp del: compileFile.simps)
qed

text \<open>
  The indexed files \<open>a.md\<close> (\<^verbatim>\<open>see {{file "b.md"}}\<close>) and \<open>b.md\<close>
  (\<^verbatim>\<open>back {{file "a.md"}}.\<close>) include each other, and the file \<open>s.md\<close> on disk
  includes itself: resolving \<open>a.md\<close> throws the chain \<open>a.md, b.md, a.md\<close>,
  resolving \<open>s.md\<close> throws \<open>s.md, s.md\<close>, a call for \<open>a.md\<close> while \<open>a.md\<close> and
  \<open>b.md\<close> are on the stack throws the stack followed by \<open>a.md\<close>, and the chain
  is a chain of includes.
\<close>

theorem cycle_detection_witness:
  "compileFile 3 cycleDemoExt cycleDemoCompiler ''a.md'' freshState
     = Some (Inl (CircularReference [''a.md'', ''b.md'', ''a.md'']))
   \<and> compileFile 2 cycleDemoExt cycleDemoCompiler ''s.md'' freshState
     = Some (Inl (CircularReference [''s.md'', ''s.md'']))
   \<and> compileFile 1 cycleDemoExt cycleDemoCompiler ''a.md''
        \<lparr> compileStack = [''a.md'', ''b.md''], compiledFiles = [''a.md'', ''b.md''], tagsUsed = [] \<rparr>
     = Some (Inl (CircularReference [''a.md'', ''b.md'', ''a.md'']))
   \<and> successively (pathIncludes cycleDemoExt cycleDemoCompiler) [''a.md'', ''b.md'', ''a.md'']
   \<and> distinct (butlast [''a.md'', ''b.md'', ''a.md''])"
proof -
  let ?X = cycleDemoExt and ?C = cycleDemoCompiler
  let ?st = "\<lparr> compileStack = [''a.md'', ''b.md''], compiledFiles = [''a.md'', ''b.md''], tagsUsed = [] \<rparr>"
  have onstack: "normalise ''a.md'' \<in> set (compileStack ?st)"
    by code_simp
  have na: "normalise ''a.md'' = ''a.md''"
    by code_simp
  have mutual: "''a.md'' \<noteq> ''b.md'' \<and> normalise ''a.md'' = ''a.md''
      \<and> resolveContent ?X ?C ''a.md'' = Inr (''TA'', [])
      \<and> hbs_parse ?X ''TA'' = [Text ''see ''] @ FileInc ''b.md'' # [] \<and> normalise ''b.md'' = ''b.md''
      \<and> renderNodes (compileFile 0 ?X ?C) ?X ?C [] (rootContext ?C []) [Text ''see '']
           \<lparr> compileStack = [''a.md''], compiledFiles = [''a.md''], tagsUsed = [] \<rparr>
         = Some (Inr (''see '', \<lparr> compileStack = [''a.md''], compiledFiles = [''a.md''], tagsUsed = [] \<rparr>))
      \<and> resolveContent ?X ?C ''b.md'' = Inr (''TB'', [])
      \<and> hbs_parse ?X ''TB'' = [Text ''back ''] @ FileInc ''a.md'' # [Text ''.''] \<and> normalise ''a.md'' = ''a.md''
      \<and> (\<forall>s. compileStack s = [''a.md'', ''b.md''] \<longrightarrow>
            (\<exists>r s'. renderNodes (compileFile 0 ?X ?C) ?X ?C [] (rootContext ?C []) [Text ''back ''] s
                = Some (Inr (r, s'))))"
  proof (intro conjI)
    show "\<forall>s. compileStack s = [''a.md'', ''b.md''] \<longrightarrow>
            (\<exists>r s'. renderNodes (compileFile 0 ?X ?C) ?X ?C [] (rootContext ?C []) [Text ''back ''] s
                = Some (Inr (r, s')))"
      by simp
    show "renderNodes (compileFile 0 ?X ?C) ?X ?C [] (rootContext ?C []) [Text ''see '']
           \<lparr> compileStack = [''a.md''], compiledFiles = [''a.md''], tagsUsed = [] \<rparr>
         = Some (Inr (''see '', \<lparr> compileStack = [''a.md''], compiledFiles = [''a.md''], tagsUsed = [] \<rparr>))"
      by simp
  qed code_simp+
  have self: "normalise ''s.md'' = ''s.md''
      \<and> resolveContent ?X ?C ''s.md'' = Inr (''TS'', [])
      \<and> hbs_parse ?X ''TS'' = [] @ FileInc ''s.md'' # [] \<and> normalise ''s.md'' = ''s.md''
      \<and> renderNodes (compileFile 0 ?X ?C) ?X ?C [] (rootContext ?C []) []
           \<lparr> compileStack = [''s.md''], compiledFiles = [''s.md''], tagsUsed = [] \<rparr>
         = Some (Inr ([], \<lparr> compileStack = [''s.md''], compiledFiles = [''s.md''], tagsUsed = [] \<rparr>))"
  proof (intro conjI)
    show "renderNodes (compileFile 0 ?X ?C) ?X ?C [] (rootContext ?C []) []
           \<lparr> compileStack = [''s.md''], compiledFiles = [''s.md''], tagsUsed = [] \<rparr>
         = Some (Inr ([], \<lparr> compileStack = [''s.md''], compiledFiles = [''s.md''], tagsUsed = [] \<rparr>))"
      by simp
  qed code_simp+
  note t1 = cycle_detection [THEN conjunct1, rule_format, OF onstack, of 0 ?X ?C]
  note t3 = cycle_detection [THEN conjunct2, THEN conjunct2, THEN conjunct1, rule_format, OF mutual]
  note t4 = cycle_detection [THEN conjunct2, THEN conjunct2, THEN conjunct2, rule_format, OF self]
  have 1: "compileFile 3 ?X ?C ''a.md'' freshState
     = Some (Inl (CircularReference [''a.md'', ''b.md'', ''a.md'']))"
    by (rule t3) simp
  have 2: "compileFile 2 ?X ?C ''s.md'' freshState
     = Some (Inl (CircularReference [''s.md'', ''s.md'']))"
    by (rule t4) simp
  have 3: "compileFile (Suc 0) ?X ?C ''a.md'' ?st
     = Some (Inl (CircularReference [''a.md'', ''b.md'', ''a.md'']))"
    using t1 unfolding na by simp
  note t2 = cycle_detection [THEN conjunct2, THEN conjunct1, rule_format, OF 1]
  from t2 have 4: "successively (pathIncludes ?X ?C) [''a.md'', ''b.md'', ''a.md'']"
    and 5: "distinct (butlast [''a.md'', ''b.md'', ''a.md''])"
    by blast+
  from 1 2 3 4 5 show ?thesis by (simp only: One_nat_def simp_thms)
qed

text \<open>
  In the second index \<open>a.md\<close> (\<^verbatim>\<open>{{file "c.md"}}{{file "b.md"}}\<close>) and \<open>b.md\<close>
  (\<^verbatim>\<open>{{file "a.md"}}\<close>) include each other, yet resolving \<open>a.md\<close> throws the
  chain \<open>a.md, c.md, a.md\<close>: the include of \<open>c.md\<close>, which includes \<open>a.md\<close>,
  comes first. And \<open>t.md\<close> (\<^verbatim>\<open>{{file "gone.md"}}{{file "t.md"}}\<close>) includes its
  own path, yet resolving it throws the file-not-found error of the include
  before.
\<close>

theorem cycle_detection_counterexample:
  "pathIncludes cycleDemoExt detourDemoCompiler ''a.md'' ''b.md''
   \<and> pathIncludes cycleDemoExt detourDemoCompiler ''b.md'' ''a.md''
   \<and> compileFile 3 cycleDemoExt detourDemoCompiler ''a.md'' freshState
       = Some (Inl (CircularReference [''a.md'', ''c.md'', ''a.md'']))
   \<and> pathIncludes cycleDemoExt detourDemoCompiler ''t.md'' ''t.md''
   \<and> compileFile 3 cycleDemoExt detourDemoCompiler ''t.md'' freshState
       = Some (Inl (FileNotFound ''gone.md''))"
  by code_simp

subsection \<open>Termination\<close>

lemma resolveContent_allContents:
  assumes "resolveContent X C a = Inr (contents, meta)"
  shows "contents \<in> set (allContents X C)"
proof (cases "map_of (paths (index C)) a")
  case (Some f)
  then have "(a, f) \<in> set (paths (index C))" by (rule map_of_SomeD)
  moreover from assms Some have "contents = content f" by (simp add: resolveContent_def)
  ultimately show ?thesis unfolding allContents_def by force
next
  case None
  with assms obtain raw where
    raw: "map_of (disk X) (path_join X (rootDir C) a) = Some (RegularFile raw)"
    and c: "contents = snd (matter X raw)"
    by (auto simp: resolveContent_def Let_def split: option.splits dirent.splits)
  from raw have "(path_join X (rootDir C) a, RegularFile raw) \<in> set (disk X)" by (rule map_of_SomeD)
  with c show ?thesis unfolding allContents_def by force
qed

lemma pathIncludes_known:
  assumes "pathIncludes X C a b"
  shows "b \<in> set (knownPaths X C p)"
proof -
  from assms obtain contents meta where r: "resolveContent X C a = Inr (contents, meta)"
    and b: "b \<in> normalise ` set (concat (map (callees C) (hbs_parse X contents)))"
    by (auto simp: pathIncludes_def split: sum.splits)
  from resolveContent_allContents [OF r] b show ?thesis
    unfolding knownPaths_def by auto
qed

lemma reachablePaths_known: "reachablePaths X C p \<subseteq> set (knownPaths X C p)"
proof
  fix b assume "b \<in> reachablePaths X C p"
  then have "rtranclp (pathIncludes X C) (normalise p) b" by (simp add: reachablePaths_def)
  then show "b \<in> set (knownPaths X C p)"
  proof (cases rule: rtranclp.cases)
    case rtrancl_refl
    then show ?thesis by (simp add: knownPaths_def)
  next
    case (rtrancl_into_rtrancl a)
    then show ?thesis by (simp add: pathIncludes_known)
  qed
qed

lemma finite_reachablePaths: "finite (reachablePaths X C p)"
  by (rule finite_subset [OF reachablePaths_known]) simp

lemma card_reachablePaths: "card (reachablePaths X C p) \<le> length (knownPaths X C p)"
proof -
  have "card (reachablePaths X C p) \<le> card (set (knownPaths X C p))"
    by (rule card_mono [OF _ reachablePaths_known]) simp
  also have "\<dots> \<le> length (knownPaths X C p)" by (rule card_length)
  finally show ?thesis .
qed

lemma compileFile_not_Diverged:
  assumes fin: "finite U"
    and closed: "\<And>a b. a \<in> U \<Longrightarrow> pathIncludes X C a b \<Longrightarrow> b \<in> U"
  shows "normalise p \<in> U \<Longrightarrow> set (compileStack st) \<subseteq> U \<Longrightarrow> distinct (compileStack st)
    \<Longrightarrow> card U < n + length (compileStack st) \<Longrightarrow> compileFile n X C p st \<noteq> None"
proof (induction n arbitrary: p st)
  case 0
  from "0.prems"(2,3) fin have "length (compileStack st) \<le> card U"
    by (metis card_mono distinct_card)
  with "0.prems"(4) show ?case by simp
next
  case (Suc n)
  let ?p = "normalise p"
  let ?S = "compileStack st"
  show ?case
  proof (cases "?p \<in> set ?S")
    case True
    then show ?thesis by simp
  next
    case False
    let ?st1 = "st\<lparr> compileStack := set_add ?p ?S,
                     compiledFiles := set_add ?p (compiledFiles st) \<rparr>"
    have S1: "compileStack ?st1 = ?S @ [?p]" using False by (simp add: set_add_def)
    show ?thesis
    proof (cases "resolveContent X C ?p")
      case (Inl e)
      with False show ?thesis by simp
    next
      case (Inr b)
      obtain contents meta where b: "b = (contents, meta)" by (cases b)
      let ?I = "\<lambda>s::cstate. compileStack s = ?S @ [?p]"
      let ?T = "\<lambda>q. normalise q \<in> U"
      let ?Q = "\<lambda>s. s \<noteq> Diverged"
      have self: "\<And>q s. ?I s \<Longrightarrow> ?T q \<Longrightarrow> good ?Q ?I (compileFile n X C q s)"
      proof -
        fix q and s :: cstate assume s: "compileStack s = ?S @ [?p]" and q: "normalise q \<in> U"
        have "compileFile n X C q s \<noteq> None"
        proof (rule Suc.IH [OF q])
          show "set (compileStack s) \<subseteq> U" unfolding s using Suc.prems(1,2) by simp
          show "distinct (compileStack s)" unfolding s using Suc.prems(3) False by simp
          show "card U < n + length (compileStack s)" unfolding s using Suc.prems(4) by simp
        qed
        then have 1: "shapeOf (compileFile n X C q s) \<noteq> Diverged"
          by (cases "compileFile n X C q s") (auto simp: shapeOf_def split: sum.splits)
        have 2: "\<forall>v st'. compileFile n X C q s = Some (Inr (v, st')) \<longrightarrow> compileStack st' = ?S @ [?p]"
          using compileFile_stack [of n X C q s] s by metis
        from 1 2 show "good ?Q ?I (compileFile n X C q s)" unfolding good_def by blast
      qed
      have ns: "\<forall>q\<in>set (concat (map (callees C) (hbs_parse X contents))). ?T q"
      proof
        fix q assume "q \<in> set (concat (map (callees C) (hbs_parse X contents)))"
        with Inr b have "pathIncludes X C ?p (normalise q)"
          by (simp add: pathIncludes_def)
        with Suc.prems(1) show "normalise q \<in> U" by (rule closed)
      qed
      have "good ?Q ?I
          (renderNodes (compileFile n X C) X C meta (rootContext C meta)
             (hbs_parse X contents) ?st1)"
        by (rule good_renderNodes [where T="?T" and I="?I" and Q="?Q", OF _ self _ _ ns])
           (simp_all add: S1)
      note r = this
      note u = compileFile_Suc_unfold [OF False Inr [unfolded b], of n]
      from r show ?thesis
        unfolding u
        by (cases rule: good_cases) (simp_all del: compileFile.simps)
    qed
  qed
qed

text \<open>
  C2. Termination. The paths reachable from the entry are finitely many (the
  index and the disk are finite), and with a depth bound above their number
  \<^verbatim>\<open>compileFile\<close> always ends, with one and the same result for every such
  bound: it returns the rendered text or throws. So the nesting depth of the
  recursion never exceeds the number of distinct reachable paths by more than
  one (the call that detects the cycle).
\<close>

theorem resolution_terminates:
  "finite (reachablePaths X C p)
   \<and> card (reachablePaths X C p) \<le> length (knownPaths X C p)
   \<and> (\<exists>r. \<forall>m>card (reachablePaths X C p). compileFile m X C p freshState = Some r)"
proof -
  let ?U = "reachablePaths X C p"
  have closed: "\<And>a b. a \<in> ?U \<Longrightarrow> pathIncludes X C a b \<Longrightarrow> b \<in> ?U"
    unfolding reachablePaths_def by (auto intro: rtranclp.rtrancl_into_rtrancl)
  have "compileFile (Suc (card ?U)) X C p freshState \<noteq> None"
    by (rule compileFile_not_Diverged [OF finite_reachablePaths closed])
       (simp_all add: reachablePaths_def freshState_def)
  then obtain r where r: "compileFile (Suc (card ?U)) X C p freshState = Some r" by blast
  have "\<forall>m>card ?U. compileFile m X C p freshState = Some r"
    using compileFile_mono [OF r] by (simp add: Suc_le_eq del: compileFile.simps)
  with finite_reachablePaths card_reachablePaths show ?thesis by blast
qed

theorem resolution_terminates_witness:
  "compileFile 100 nestDemoExt nestDemoCompiler ''e.md'' freshState =
      Some (Inr (''A X Y B'', \<lparr> compileStack = [], compiledFiles = [''e.md'', ''x.md'', ''other.md''],
                                 tagsUsed = [''t''] \<rparr>))"
proof -
  have k: "length (knownPaths nestDemoExt nestDemoCompiler ''e.md'') = 3"
    by code_simp
  have v: "compileFile 4 nestDemoExt nestDemoCompiler ''e.md'' freshState =
      Some (Inr (''A X Y B'', \<lparr> compileStack = [], compiledFiles = [''e.md'', ''x.md'', ''other.md''],
                                 tagsUsed = [''t''] \<rparr>))"
    by code_simp
  from resolution_terminates [of nestDemoExt nestDemoCompiler "''e.md''"]
  obtain r where c: "card (reachablePaths nestDemoExt nestDemoCompiler ''e.md'') \<le> 3"
    and r: "\<forall>m>card (reachablePaths nestDemoExt nestDemoCompiler ''e.md'').
              compileFile m nestDemoExt nestDemoCompiler ''e.md'' freshState = Some r"
    unfolding k by blast
  from c r have "compileFile 4 nestDemoExt nestDemoCompiler ''e.md'' freshState = Some r"
    by (simp del: compileFile.simps)
  with v have "r = Inr (''A X Y B'', \<lparr> compileStack = [], compiledFiles = [''e.md'', ''x.md'', ''other.md''],
                                 tagsUsed = [''t''] \<rparr>)"
    by simp
  with c r show ?thesis by (simp del: compileFile.simps)
qed
subsection \<open>Repeated tags\<close>

lemma getBucket_update:
  "getBucket (AList.update k v tgs) t = (if t = k then v else getBucket tgs t)"
  by (simp add: getBucket_def update_conv')

lemma addTags_bucket:
  "getBucket (addTags sf ts tgs) t = getBucket tgs t @ replicate (count_list ts t) sf"
proof (induction ts arbitrary: tgs)
  case Nil
  show ?case by simp
next
  case (Cons tag rest)
  have "getBucket (addTags sf (tag # rest) tgs) t
      = getBucket (AList.update tag (getBucket tgs tag @ [sf]) tgs) t @ replicate (count_list rest t) sf"
    by (simp add: Cons.IH getBucket_def [of tgs tag])
  also have "\<dots> = getBucket tgs t @ replicate (count_list (tag # rest) t) sf"
    by (simp add: getBucket_update replicate_append_same)
  finally show ?case .
qed

lemma indexLoop_bucket:
  assumes "indexLoop X dir ms idx = Inr idx'"
    and "\<And>t. getBucket (tags idx) t = concat (map (\<lambda>g. replicate (count_list (tagList g) t) g) (files idx))"
  shows "getBucket (tags idx') t = concat (map (\<lambda>g. replicate (count_list (tagList g) t) g) (files idx'))"
  using assms
proof (induction ms arbitrary: idx)
  case Nil
  then show ?case by simp
next
  case (Cons relPath rest)
  let ?abs = "path_join X dir relPath"
  from Cons.prems(1) obtain raw where raw: "map_of (disk X) ?abs = Some (RegularFile raw)"
    by (auto simp: Let_def split: option.splits dirent.splits)
  let ?sf = "mkSourceFile X relPath raw"
  from Cons.prems(1) raw obtain ts where ts: "instrux_tags (instrux ?sf) = Inr ts"
    by (auto simp: Let_def split: sum.splits)
  let ?idx1 = "\<lparr> files = files idx @ [?sf], tags = addTags ?sf ts (tags idx),
                  paths = AList.update (path ?sf) ?sf (paths idx) \<rparr>"
  from Cons.prems(1) raw ts have loop: "indexLoop X dir rest ?idx1 = Inr idx'"
    by (simp add: Let_def)
  have tl: "tagList ?sf = ts" by (simp add: tagList_def ts)
  have tg: "\<And>u. getBucket (addTags ?sf ts (tags idx)) u
      = getBucket (tags idx) u @ replicate (count_list (tagList ?sf) u) ?sf"
    by (simp add: tl addTags_bucket)
  show ?case
  proof (rule Cons.IH [OF loop])
    fix u
    show "getBucket (tags ?idx1) u = concat (map (\<lambda>g. replicate (count_list (tagList g) u) g) (files ?idx1))"
      by (simp add: tg Cons.prems(2))
  qed
qed

lemma buildSourceIndex_bucket:
  assumes "buildSourceIndex X dir patterns = Inr idx"
  shows "getBucket (tags idx) t = concat (map (\<lambda>g. replicate (count_list (tagList g) t) g) (files idx))"
  by (rule indexLoop_bucket [OF assms [unfolded buildSourceIndex_def]]) (simp add: getBucket_def)

lemma compileFile_sim_stack:
  "stackEq s s' \<Longrightarrow> simulates stackEq (compileFile n X C p s) (compileFile n X C p s')"
proof (induction n arbitrary: p s s')
  case 0
  show ?case by (simp add: simulates_simps)
next
  case (Suc n)
  let ?p = "normalise p"
  from Suc.prems have eq: "compileStack s' = compileStack s" by (simp add: stackEq_def)
  show ?case
  proof (cases "?p \<in> set (compileStack s)")
    case True
    then show ?thesis by (simp add: simulates_simps eq)
  next
    case False
    then have False': "?p \<notin> set (compileStack s')" by (simp add: eq)
    let ?st1 = "s\<lparr> compileStack := set_add ?p (compileStack s),
                     compiledFiles := set_add ?p (compiledFiles s) \<rparr>"
    let ?st1' = "s'\<lparr> compileStack := set_add ?p (compileStack s'),
                     compiledFiles := set_add ?p (compiledFiles s') \<rparr>"
    show ?thesis
    proof (cases "resolveContent X C ?p")
      case (Inl e)
      with False False' show ?thesis by (simp add: simulates_simps)
    next
      case (Inr b)
      obtain contents meta where b: "b = (contents, meta)" by (cases b)
      have R1: "stackEq ?st1 ?st1'" by (simp add: stackEq_def eq)
      have self: "\<And>q t t'. stackEq t t' \<Longrightarrow> simulates stackEq (compileFile n X C q t) (compileFile n X C q t')"
        by (rule Suc.IH)
      have upd: "\<And>t t' u. stackEq t t' \<Longrightarrow>
          stackEq (t\<lparr> tagsUsed := set_add u (tagsUsed t) \<rparr>) (t'\<lparr> tagsUsed := set_add u (tagsUsed t') \<rparr>)"
        by (simp add: stackEq_def)
      have sim: "simulates stackEq
          (renderNodes (compileFile n X C) X C meta (rootContext C meta)
             (hbs_parse X contents) ?st1)
          (renderNodes (compileFile n X C) X C meta (rootContext C meta)
             (hbs_parse X contents) ?st1')"
        by (rule sim_renderNodes [of stackEq, OF self upd R1])
      note u1 = compileFile_Suc_unfold [OF False Inr [unfolded b], of n]
      note u2 = compileFile_Suc_unfold [OF False' Inr [unfolded b], of n]
      from sim show ?thesis
        unfolding u1 u2
        by (cases rule: simulates_cases)
           (simp_all add: simulates_simps stackEq_def del: compileFile.simps)
    qed
  qed
qed

lemma compileFile_same_stack:
  assumes "compileFile n X C p s = Some (Inr (r, s1))" "compileStack s' = compileStack s"
  shows "\<exists>s1'. compileFile n X C p s' = Some (Inr (r, s1'))"
  using compileFile_sim_stack [of s s' n X C p] assms
  by (auto simp: simulates_simps stackEq_def)

lemma compileFiles_all:
  assumes ok: "\<forall>p\<in>set ps. \<forall>s. compileStack s = S \<longrightarrow>
      (\<exists>r s'. compileFile n X C p s = Some (Inr (r, s')))"
    and st: "compileStack st = S"
  shows "\<exists>rs st'. compileFiles (compileFile n X C) ps st = Some (Inr (rs, st'))
      \<and> compileStack st' = S \<and> length rs = length ps
      \<and> (\<forall>i<length ps. \<forall>s. compileStack s = S \<longrightarrow>
            (\<exists>s'. compileFile n X C (ps ! i) s = Some (Inr (rs ! i, s'))))"
  using assms
proof (induction ps arbitrary: st)
  case Nil
  then show ?case by simp
next
  case (Cons p ps)
  from Cons.prems obtain r s1 where r: "compileFile n X C p st = Some (Inr (r, s1))"
    by (metis list.set_intros(1))
  from compileFile_stack [OF r] Cons.prems(2) have s1: "compileStack s1 = S" by simp
  from Cons.prems(1) have "\<forall>p\<in>set ps. \<forall>s. compileStack s = S \<longrightarrow>
      (\<exists>r s'. compileFile n X C p s = Some (Inr (r, s')))"
    by simp
  from Cons.IH [OF this s1] obtain rs st' where
    rs: "compileFiles (compileFile n X C) ps s1 = Some (Inr (rs, st'))"
    and st': "compileStack st' = S" and len: "length rs = length ps"
    and each: "\<forall>i<length ps. \<forall>s. compileStack s = S \<longrightarrow>
            (\<exists>s'. compileFile n X C (ps ! i) s = Some (Inr (rs ! i, s')))"
    by blast
  have head: "\<forall>s. compileStack s = S \<longrightarrow> (\<exists>s'. compileFile n X C p s = Some (Inr (r, s')))"
    using compileFile_same_stack [OF r] Cons.prems(2) by simp
  have "\<forall>i<length (p # ps). \<forall>s. compileStack s = S \<longrightarrow>
            (\<exists>s'. compileFile n X C ((p # ps) ! i) s = Some (Inr ((r # rs) ! i, s')))"
  proof (intro allI impI)
    fix i and s :: cstate assume i: "i < length (p # ps)" and s: "compileStack s = S"
    show "\<exists>s'. compileFile n X C ((p # ps) ! i) s = Some (Inr ((r # rs) ! i, s'))"
    proof (cases i)
      case 0
      with head s show ?thesis by simp
    next
      case (Suc j)
      with i each s show ?thesis by simp
    qed
  qed
  with r rs st' len show ?case by simp
qed

lemma count_list_replicate_eq: "count_list (replicate n x) y = (if x = y then n else 0)"
  by (induction n) auto

lemma count_list_buckets:
  "count_list (concat (map (\<lambda>g. replicate (c g) g) fs)) f = count_list fs f * c f"
  by (induction fs) (auto simp: count_list_replicate_eq)

lemma count_list_sortSourceFiles: "count_list (sortSourceFiles X fs) f = count_list fs f"
  by (metis count_mset sortSourceFiles_mset)
lemma compileTag_all:
  assumes bucket: "map_of (tags (index C)) t = Some fs" "fs \<noteq> []"
    and ok: "\<forall>g\<in>set fs. \<forall>s. compileStack s = compileStack st \<longrightarrow>
        (\<exists>r s'. compileFile n X C (path g) s = Some (Inr (r, s')))"
  shows "\<exists>rendered st'.
      compileTag (compileFile n X C) X C t st = Some (Inr ((sortSourceFiles X fs, rendered), st'))
      \<and> length rendered = length fs
      \<and> (\<forall>i<length fs. \<forall>s. compileStack s = compileStack st \<longrightarrow>
            (\<exists>s'. compileFile n X C (path (sortSourceFiles X fs ! i)) s = Some (Inr (rendered ! i, s'))))"
proof -
  let ?sorted = "sortSourceFiles X fs"
  let ?st0 = "st\<lparr> tagsUsed := set_add t (tagsUsed st) \<rparr>"
  have len: "length ?sorted = length fs" by (rule length_sortSourceFiles)
  have ok': "\<forall>p\<in>set (map path ?sorted). \<forall>s. compileStack s = compileStack st \<longrightarrow>
      (\<exists>r s'. compileFile n X C p s = Some (Inr (r, s')))"
    using ok by (auto simp: set_sortSourceFiles)
  have "compileStack ?st0 = compileStack st" by simp
  from compileFiles_all [OF ok' this] obtain rendered st' where
    rs: "compileFiles (compileFile n X C) (map path ?sorted) ?st0 = Some (Inr (rendered, st'))"
    and lr: "length rendered = length (map path ?sorted)"
    and each: "\<forall>i<length (map path ?sorted). \<forall>s. compileStack s = compileStack st \<longrightarrow>
            (\<exists>s'. compileFile n X C (map path ?sorted ! i) s = Some (Inr (rendered ! i, s')))"
    by blast
  have tag: "compileTag (compileFile n X C) X C t st = Some (Inr ((?sorted, rendered), st'))"
    using bucket rs by (simp add: compileTag_def Let_def)
  from lr len have lr': "length rendered = length fs" by simp
  from each len have each': "\<forall>i<length fs. \<forall>s. compileStack s = compileStack st \<longrightarrow>
            (\<exists>s'. compileFile n X C (path (?sorted ! i)) s = Some (Inr (rendered ! i, s')))"
    by simp
  from tag lr' each' show ?thesis by blast
qed

lemma emit_YStr: "emit X (Some (YStr s)) = s"
  by (simp add: emit_def emitValue_def toString_def)

lemma renderEach_items:
  "length rendered = length fs \<Longrightarrow>
   renderEach (\<lambda>item. renderNodes self X C meta item [Var [''path''], Text a, Var [''body''], Text b])
     (map2 (taggedItem X) fs rendered) st
   = Some (Inr (concat (map2 (\<lambda>g r. path g @ a @ r @ b) fs rendered), st))"
proof (induction fs rendered rule: list_induct2')
  case (4 g gs r rs)
  have item: "renderNodes self X C meta (taggedItem X g r) [Var [''path''], Text a, Var [''body''], Text b] st
      = Some (Inr (path g @ a @ r @ b, st))"
    by (simp add: taggedItem_def getProp_YMap emit_YStr)
  from 4 show ?case by (simp add: item del: renderNodes.simps)
qed simp_all

lemma nth_replicate_eq:
  "length xs = k \<Longrightarrow> (\<forall>i<k. xs ! i = x) \<Longrightarrow> xs = replicate k x"
  by (auto simp: list_eq_iff_nth_eq)

lemma count_list_only: "set fs \<subseteq> {f} \<Longrightarrow> count_list fs f = length fs"
  by (induction fs) auto

text \<open>
  C10. The index built by \<^verbatim>\<open>buildSourceIndex\<close> holds a file in the bucket of a
  tag once per occurrence of that tag among the tags the file is filed under
  (the elements of its tag list). When every file of the bucket compiles, the
  \<^verbatim>\<open>tag\<close> and \<^verbatim>\<open>tagged\<close> helpers compile the sorted bucket entry by entry: a
  file occurs in it as often as in the bucket and each occurrence yields the
  file's text again; the \<^verbatim>\<open>tag\<close> directive emits these texts joined by the
  separator, and an \<^verbatim>\<open>#each\<close> over \<^verbatim>\<open>tagged\<close> runs its block once per occurrence,
  with the file's path and text in the item. When the bucket holds one file
  only, the texts are that file's text, as many times as the tag occurs in its
  tag list.
\<close>

theorem duplicate_tag_renders_repeatedly:
  assumes idx: "buildSourceIndex X dir patterns = Inr (index C)"
    and bucket: "getBucket (tags (index C)) t = fs" "fs \<noteq> []"
    and ok: "\<forall>g\<in>set fs. \<forall>s. compileStack s = compileStack st \<longrightarrow>
        (\<exists>r s'. compileFile n X C (path g) s = Some (Inr (r, s')))"
    and f: "compileFile n X C (path f) st = Some (Inr (r, st1))"
  shows "fs = concat (map (\<lambda>g. replicate (count_list (tagList g) t) g) (files (index C)))
       \<and> count_list fs f = count_list (files (index C)) f * count_list (tagList f) t
       \<and> (\<exists>rendered st'.
             length rendered = length fs
           \<and> count_list (sortSourceFiles X fs) f = count_list fs f
           \<and> (\<forall>i<length fs. sortSourceFiles X fs ! i = f \<longrightarrow> rendered ! i = r)
           \<and> (set fs \<subseteq> {f} \<longrightarrow> rendered = replicate (count_list fs f) r)
           \<and> renderNode (compileFile n X C) X C meta ctx (TagInc t) st
               = Some (Inr (join (sep (config C)) rendered, st'))
           \<and> renderNode (compileFile n X C) X C meta ctx
                 (EachTagged t [Var [''path''], Text a, Var [''body''], Text b]) st
               = Some (Inr (concat (map2 (\<lambda>g r. path g @ a @ r @ b) (sortSourceFiles X fs) rendered),
                            st')))"
proof -
  note b = buildSourceIndex_bucket [OF idx]
  have 1: "fs = concat (map (\<lambda>g. replicate (count_list (tagList g) t) g) (files (index C)))"
    using b [of t] bucket(1) by simp
  have 2: "count_list fs f = count_list (files (index C)) f * count_list (tagList f) t"
    by (subst 1) (rule count_list_buckets)
  let ?sorted = "sortSourceFiles X fs"
  have m: "map_of (tags (index C)) t = Some fs"
    using bucket by (auto simp: getBucket_def split: option.splits)
  from compileTag_all [OF m bucket(2) ok] obtain rendered st' where
    tag: "compileTag (compileFile n X C) X C t st = Some (Inr ((?sorted, rendered), st'))"
    and lr: "length rendered = length fs"
    and each: "\<forall>i<length fs. \<forall>s. compileStack s = compileStack st \<longrightarrow>
            (\<exists>s'. compileFile n X C (path (?sorted ! i)) s = Some (Inr (rendered ! i, s')))"
    by blast
  have pos: "\<forall>i<length fs. ?sorted ! i = f \<longrightarrow> rendered ! i = r"
  proof (intro allI impI)
    fix i assume i: "i < length fs" and fi: "?sorted ! i = f"
    from each i obtain s' where "compileFile n X C (path (?sorted ! i)) st = Some (Inr (rendered ! i, s'))"
      by blast
    with fi f show "rendered ! i = r" by simp
  qed
  have only: "set fs \<subseteq> {f} \<longrightarrow> rendered = replicate (count_list fs f) r"
  proof
    assume s: "set fs \<subseteq> {f}"
    have "\<forall>i<length fs. rendered ! i = r"
    proof (intro allI impI)
      fix i assume i: "i < length fs"
      then have "?sorted ! i \<in> set ?sorted" by (simp add: length_sortSourceFiles)
      with s have "?sorted ! i = f" by (auto simp: set_sortSourceFiles)
      with pos i show "rendered ! i = r" by simp
    qed
    with lr have "rendered = replicate (length fs) r" by (rule nth_replicate_eq)
    with s show "rendered = replicate (count_list fs f) r" by (simp add: count_list_only)
  qed
  have tagInc: "renderNode (compileFile n X C) X C meta ctx (TagInc t) st
               = Some (Inr (join (sep (config C)) rendered, st'))"
    by (simp add: tag)
  have lr': "length rendered = length ?sorted" by (simp add: lr length_sortSourceFiles)
  have each': "renderNode (compileFile n X C) X C meta ctx
                 (EachTagged t [Var [''path''], Text a, Var [''body''], Text b]) st
               = Some (Inr (concat (map2 (\<lambda>g r. path g @ a @ r @ b) ?sorted rendered), st'))"
    unfolding renderNode.simps tag using renderEach_items [OF lr'] by simp
  from 1 2 lr count_list_sortSourceFiles pos only tagInc each' show ?thesis by blast
qed

text \<open>
  The index built from \<open>d.md\<close> (tags \<open>[x, x]\<close>), \<open>s.md\<close> (tags: the string \<open>yz\<close>)
  and the entry: \<open>d.md\<close> is twice in the bucket of \<open>x\<close>, \<open>s.md\<close> is in the
  buckets of \<open>y\<close> and of \<open>z\<close>, and both directives emit the text of \<open>d.md\<close> twice.
\<close>

theorem duplicate_tag_renders_repeatedly_witness:
  "buildSourceIndex dupDemoExt ''r'' [''d.md'', ''s.md'', ''e.md''] = Inr dupDemoIndex
   \<and> tagList dupDemoFile = [''x'', ''x'']
   \<and> tagList strDemoFile = [''y'', ''z'']
   \<and> [dupDemoFile, dupDemoFile]
       = concat (map (\<lambda>g. replicate (count_list (tagList g) ''x'') g) (files dupDemoIndex))
   \<and> (\<exists>st'. renderNode (compileFile 1 dupDemoExt dupDemoCompiler) dupDemoExt dupDemoCompiler
              [] (rootContext dupDemoCompiler []) (TagInc ''x'') freshState
            = Some (Inr (''Dup'' @ [CHR 0x0A, CHR 0x0A] @ ''Dup'', st'))
          \<and> renderNode (compileFile 1 dupDemoExt dupDemoCompiler) dupDemoExt dupDemoCompiler
              [] (rootContext dupDemoCompiler [])
              (EachTagged ''x'' [Var [''path''], Text '': '', Var [''body''], Text '';'']) freshState
            = Some (Inr (''d.md: Dup;d.md: Dup;'', st')))"
proof -
  let ?X = dupDemoExt and ?C = dupDemoCompiler
  have ix: "index ?C = dupDemoIndex" by (simp add: dupDemoCompiler_def)
  have idx: "buildSourceIndex ?X ''r'' [''d.md'', ''s.md'', ''e.md''] = Inr (index ?C)"
    by code_simp
  have bucket: "getBucket (tags (index ?C)) ''x'' = [dupDemoFile, dupDemoFile]"
    "[dupDemoFile, dupDemoFile] \<noteq> []"
    by code_simp+
  have f: "compileFile 1 ?X ?C (path dupDemoFile) freshState
      = Some (Inr (''Dup'', \<lparr> compileStack = [], compiledFiles = [''d.md''], tagsUsed = [] \<rparr>))"
    by code_simp
  have ok: "\<forall>g\<in>set [dupDemoFile, dupDemoFile]. \<forall>s. compileStack s = compileStack freshState \<longrightarrow>
        (\<exists>r s'. compileFile 1 ?X ?C (path g) s = Some (Inr (r, s')))"
  proof (intro ballI allI impI)
    fix g and s :: cstate
    assume "g \<in> set [dupDemoFile, dupDemoFile]" and s: "compileStack s = compileStack freshState"
    then have g: "g = dupDemoFile" by simp
    from compileFile_same_stack [OF f s]
    show "\<exists>r s'. compileFile 1 ?X ?C (path g) s = Some (Inr (r, s'))"
      unfolding g by blast
  qed
  have tl: "tagList dupDemoFile = [''x'', ''x'']" "tagList strDemoFile = [''y'', ''z'']"
    by code_simp+
  have srt: "sortSourceFiles ?X [dupDemoFile, dupDemoFile] = [dupDemoFile, dupDemoFile]"
    by (simp add: sortSourceFiles_def)
  have sp: "sep (config ?C) = [CHR 0x0A, CHR 0x0A]"
    by code_simp
  have pd: "path dupDemoFile = ''d.md''"
    by (simp add: dupDemoFile_def)
  from duplicate_tag_renders_repeatedly [OF idx bucket ok f, where meta = "[]"
      and ctx = "rootContext ?C []" and a = "'': ''" and b = "'';''"]
  obtain rendered st' where
    c: "[dupDemoFile, dupDemoFile]
          = concat (map (\<lambda>g. replicate (count_list (tagList g) ''x'') g) (files (index ?C)))"
    and only: "set [dupDemoFile, dupDemoFile] \<subseteq> {dupDemoFile}
          \<longrightarrow> rendered = replicate (count_list [dupDemoFile, dupDemoFile] dupDemoFile) ''Dup''"
    and out: "renderNode (compileFile 1 ?X ?C) ?X ?C [] (rootContext ?C []) (TagInc ''x'') freshState
               = Some (Inr (join (sep (config ?C)) rendered, st'))"
    and each: "renderNode (compileFile 1 ?X ?C) ?X ?C [] (rootContext ?C [])
                 (EachTagged ''x'' [Var [''path''], Text '': '', Var [''body''], Text '';'']) freshState
               = Some (Inr (concat (map2 (\<lambda>g r. path g @ '': '' @ r @ '';'')
                     (sortSourceFiles ?X [dupDemoFile, dupDemoFile]) rendered), st'))"
    by blast
  from only have r: "rendered = [''Dup'', ''Dup'']" by simp
  have o1: "renderNode (compileFile 1 ?X ?C) ?X ?C [] (rootContext ?C []) (TagInc ''x'') freshState
               = Some (Inr (''Dup'' @ [CHR 0x0A, CHR 0x0A] @ ''Dup'', st'))"
    unfolding out r sp by simp
  have o2: "renderNode (compileFile 1 ?X ?C) ?X ?C [] (rootContext ?C [])
                 (EachTagged ''x'' [Var [''path''], Text '': '', Var [''body''], Text '';'']) freshState
               = Some (Inr (''d.md: Dup;d.md: Dup;'', st'))"
    unfolding each r srt by (simp add: pd)
  from o1 o2 have "\<exists>st'. renderNode (compileFile 1 ?X ?C) ?X ?C [] (rootContext ?C []) (TagInc ''x'') freshState
            = Some (Inr (''Dup'' @ [CHR 0x0A, CHR 0x0A] @ ''Dup'', st'))
          \<and> renderNode (compileFile 1 ?X ?C) ?X ?C [] (rootContext ?C [])
              (EachTagged ''x'' [Var [''path''], Text '': '', Var [''body''], Text '';'']) freshState
            = Some (Inr (''d.md: Dup;d.md: Dup;'', st'))"
    by blast
  with idx tl c show ?thesis unfolding ix by (simp only: simp_thms)
qed

subsection \<open>The order of a bucket\<close>

lemma numericOrder_same:
  "numericOrder f \<Longrightarrow> getProp (instrux g) ''order'' = getProp (instrux f) ''order''
    \<Longrightarrow> numericOrder g \<and> orderKey g = orderKey f"
  by (simp add: numericOrder_def orderKey_def)

text \<open>
  C3, amended. Tag-include sort rule. For a bucket that is not empty, whose
  files have numeric orders and compile, the \<^verbatim>\<open>tag\<close> directive emits the texts
  of the files of \<open>sortSourceFiles\<close>, in that order, joined by the separator.
  The sorted list is a permutation of the bucket, ascending in the order field
  (999 when the field is absent or null) and, among equal orders, ascending in
  the order that \<^verbatim>\<open>localeCompare\<close> gives the paths. Three files with order 2,
  none and 1 come out as order 1, order 2, no order. Of two files with the same
  order, the one whose path \<^verbatim>\<open>localeCompare\<close> puts first comes first, whichever
  way round they were in the bucket.
\<close>

theorem tag_include_sort_rule:
  "(consistent (localeCompare X)
      \<and> map_of (tags (index C)) t = Some fs \<and> fs \<noteq> []
      \<and> (\<forall>g\<in>set fs. numericOrder g)
      \<and> (\<forall>g\<in>set fs. \<forall>s. compileStack s = compileStack st \<longrightarrow>
            (\<exists>r s'. compileFile n X C (path g) s = Some (Inr (r, s'))))
    \<longrightarrow> (\<exists>rendered st'.
          renderNode (compileFile n X C) X C meta ctx (TagInc t) st
            = Some (Inr (join (sep (config C)) rendered, st'))
        \<and> length rendered = length fs
        \<and> (\<forall>i<length fs. \<forall>s. compileStack s = compileStack st \<longrightarrow>
              (\<exists>s'. compileFile n X C (path (sortSourceFiles X fs ! i)) s
                    = Some (Inr (rendered ! i, s'))))
        \<and> mset (sortSourceFiles X fs) = mset fs
        \<and> sorted_wrt
            (\<lambda>x y. (case getProp (instrux x) ''order'' of Some (YNum (Finite r)) \<Rightarrow> r | _ \<Rightarrow> 999)
                      < (case getProp (instrux y) ''order'' of Some (YNum (Finite r)) \<Rightarrow> r | _ \<Rightarrow> 999)
                  \<or> ((case getProp (instrux x) ''order'' of Some (YNum (Finite r)) \<Rightarrow> r | _ \<Rightarrow> 999)
                      = (case getProp (instrux y) ''order'' of Some (YNum (Finite r)) \<Rightarrow> r | _ \<Rightarrow> 999)
                     \<and> localeCompare X (path x) (path y) \<le> 0))
            (sortSourceFiles X fs)))
   \<and> (getProp (instrux a) ''order'' = Some (YNum (Finite 2))
      \<and> getProp (instrux b) ''order'' = None
      \<and> getProp (instrux c) ''order'' = Some (YNum (Finite 1))
    \<longrightarrow> sortSourceFiles X [a, b, c] = [c, a, b])
   \<and> (consistent (localeCompare X) \<and> numericOrder f
      \<and> getProp (instrux g) ''order'' = getProp (instrux f) ''order''
      \<and> localeCompare X (path f) (path g) < 0
    \<longrightarrow> sortSourceFiles X [f, g] = [f, g] \<and> sortSourceFiles X [g, f] = [f, g])"
proof (intro conjI impI)
  assume h: "consistent (localeCompare X)
      \<and> map_of (tags (index C)) t = Some fs \<and> fs \<noteq> []
      \<and> (\<forall>g\<in>set fs. numericOrder g)
      \<and> (\<forall>g\<in>set fs. \<forall>s. compileStack s = compileStack st \<longrightarrow>
            (\<exists>r s'. compileFile n X C (path g) s = Some (Inr (r, s'))))"
  then have lc: "consistent (localeCompare X)"
    and bucket: "map_of (tags (index C)) t = Some fs" "fs \<noteq> []"
    and num: "\<forall>g\<in>set fs. numericOrder g"
    and ok: "\<forall>g\<in>set fs. \<forall>s. compileStack s = compileStack st \<longrightarrow>
            (\<exists>r s'. compileFile n X C (path g) s = Some (Inr (r, s')))"
    by blast+
  from compileTag_all [OF bucket ok] obtain rendered st' where
    tag: "compileTag (compileFile n X C) X C t st = Some (Inr ((sortSourceFiles X fs, rendered), st'))"
    and lr: "length rendered = length fs"
    and each: "\<forall>i<length fs. \<forall>s. compileStack s = compileStack st \<longrightarrow>
            (\<exists>s'. compileFile n X C (path (sortSourceFiles X fs ! i)) s = Some (Inr (rendered ! i, s')))"
    by blast
  have out: "renderNode (compileFile n X C) X C meta ctx (TagInc t) st
            = Some (Inr (join (sep (config C)) rendered, st'))"
    by (simp add: tag)
  note srt = sortSourceFiles_sorted [OF lc num, unfolded orderKey_def]
  from out lr each sortSourceFiles_mset srt
  show "\<exists>rendered st'.
          renderNode (compileFile n X C) X C meta ctx (TagInc t) st
            = Some (Inr (join (sep (config C)) rendered, st'))
        \<and> length rendered = length fs
        \<and> (\<forall>i<length fs. \<forall>s. compileStack s = compileStack st \<longrightarrow>
              (\<exists>s'. compileFile n X C (path (sortSourceFiles X fs ! i)) s
                    = Some (Inr (rendered ! i, s'))))
        \<and> mset (sortSourceFiles X fs) = mset fs
        \<and> sorted_wrt
            (\<lambda>x y. (case getProp (instrux x) ''order'' of Some (YNum (Finite r)) \<Rightarrow> r | _ \<Rightarrow> 999)
                      < (case getProp (instrux y) ''order'' of Some (YNum (Finite r)) \<Rightarrow> r | _ \<Rightarrow> 999)
                  \<or> ((case getProp (instrux x) ''order'' of Some (YNum (Finite r)) \<Rightarrow> r | _ \<Rightarrow> 999)
                      = (case getProp (instrux y) ''order'' of Some (YNum (Finite r)) \<Rightarrow> r | _ \<Rightarrow> 999)
                     \<and> localeCompare X (path x) (path y) \<le> 0))
            (sortSourceFiles X fs)"
    by blast
next
  assume h: "getProp (instrux a) ''order'' = Some (YNum (Finite 2))
      \<and> getProp (instrux b) ''order'' = None
      \<and> getProp (instrux c) ''order'' = Some (YNum (Finite 1))"
  then have n: "numericOrder a" "numericOrder b" "numericOrder c"
    and k: "orderKey a = 2" "orderKey b = 999" "orderKey c = 1"
    by (simp_all add: numericOrder_def orderKey_def)
  show "sortSourceFiles X [a, b, c] = [c, a, b]"
    by (simp add: sortSourceFiles_def compareSourceFiles_numeric n k)
next
  assume h: "consistent (localeCompare X) \<and> numericOrder f
      \<and> getProp (instrux g) ''order'' = getProp (instrux f) ''order''
      \<and> localeCompare X (path f) (path g) < 0"
  then have lc: "consistent (localeCompare X)" and nf: "numericOrder f"
    and fg: "localeCompare X (path f) (path g) < 0"
    by blast+
  from h numericOrder_same [of f g] have ng: "numericOrder g" and k: "orderKey g = orderKey f"
    by blast+
  from consistent_antisym [OF lc fg] have gf: "0 < localeCompare X (path g) (path f)" .
  show "sortSourceFiles X [f, g] = [f, g]"
    using fg by (simp add: sortSourceFiles_def compareSourceFiles_numeric nf ng k)
  show "sortSourceFiles X [g, f] = [f, g]"
    using gf by (simp add: sortSourceFiles_def compareSourceFiles_numeric nf ng k)
qed

text \<open>
  The bucket of \<open>x\<close> holds \<open>z.md\<close> (order 2), \<open>m.md\<close> (no order), \<open>y.md\<close>
  (order 1), \<open>B.md\<close> and \<open>a.md\<close> (both order 5). The directive emits the texts
  in the order \<open>y.md\<close>, \<open>z.md\<close>, \<open>a.md\<close>, \<open>B.md\<close>, \<open>m.md\<close>.
\<close>

theorem tag_include_sort_rule_witness:
  "map path (sortSourceFiles sortDemoExt sortDemoBucket) = [''y.md'', ''z.md'', ''a.md'', ''B.md'', ''m.md'']
   \<and> (\<exists>st'. renderNode (compileFile 1 sortDemoExt sortDemoCompiler) sortDemoExt sortDemoCompiler
          [] (rootContext sortDemoCompiler []) (TagInc ''x'') freshState
        = Some (Inr (''one'' @ [CHR 0x0A, CHR 0x0A] @ ''two'' @ [CHR 0x0A, CHR 0x0A] @ ''five a''
                       @ [CHR 0x0A, CHR 0x0A] @ ''five B'' @ [CHR 0x0A, CHR 0x0A] @ ''none'', st')))
   \<and> sortSourceFiles sortDemoExt
        [demoFile ''x'' ''z.md'' (Some 2) ''two'', demoFile ''x'' ''m.md'' None ''none'',
         demoFile ''x'' ''y.md'' (Some 1) ''one'']
      = [demoFile ''x'' ''y.md'' (Some 1) ''one'', demoFile ''x'' ''z.md'' (Some 2) ''two'',
         demoFile ''x'' ''m.md'' None ''none'']
   \<and> sortSourceFiles sortDemoExt
        [demoFile ''x'' ''B.md'' (Some 5) ''five B'', demoFile ''x'' ''a.md'' (Some 5) ''five a'']
      = [demoFile ''x'' ''a.md'' (Some 5) ''five a'', demoFile ''x'' ''B.md'' (Some 5) ''five B'']"
proof -
  let ?X = sortDemoExt and ?C = sortDemoCompiler
  let ?z = "demoFile ''x'' ''z.md'' (Some 2) ''two''" and ?m = "demoFile ''x'' ''m.md'' None ''none''"
  let ?y = "demoFile ''x'' ''y.md'' (Some 1) ''one''" and ?B = "demoFile ''x'' ''B.md'' (Some 5) ''five B''"
  let ?a = "demoFile ''x'' ''a.md'' (Some 5) ''five a''"
  have lc: "consistent (localeCompare ?X)"
    by (simp add: sortDemoExt_def demoExt_def consistent_collate)
  have bucket: "map_of (tags (index ?C)) ''x'' = Some sortDemoBucket" "sortDemoBucket \<noteq> []"
    by code_simp+
  have num: "\<forall>g\<in>set sortDemoBucket. numericOrder g"
    by code_simp
  have ps: "map path sortDemoBucket = [''z.md'', ''m.md'', ''y.md'', ''B.md'', ''a.md'']"
    by code_simp
  have run: "compileFile 1 ?X ?C ''y.md'' freshState
        = Some (Inr (''one'', \<lparr> compileStack = [], compiledFiles = [''y.md''], tagsUsed = [] \<rparr>))"
    "compileFile 1 ?X ?C ''z.md'' freshState
        = Some (Inr (''two'', \<lparr> compileStack = [], compiledFiles = [''z.md''], tagsUsed = [] \<rparr>))"
    "compileFile 1 ?X ?C ''a.md'' freshState
        = Some (Inr (''five a'', \<lparr> compileStack = [], compiledFiles = [''a.md''], tagsUsed = [] \<rparr>))"
    "compileFile 1 ?X ?C ''B.md'' freshState
        = Some (Inr (''five B'', \<lparr> compileStack = [], compiledFiles = [''B.md''], tagsUsed = [] \<rparr>))"
    "compileFile 1 ?X ?C ''m.md'' freshState
        = Some (Inr (''none'', \<lparr> compileStack = [], compiledFiles = [''m.md''], tagsUsed = [] \<rparr>))"
    by code_simp+
  have "\<forall>p\<in>set (map path sortDemoBucket). \<forall>s. compileStack s = compileStack freshState \<longrightarrow>
            (\<exists>r s'. compileFile 1 ?X ?C p s = Some (Inr (r, s')))"
    unfolding ps
  proof (intro ballI allI impI)
    fix p and s :: cstate
    assume p: "p \<in> set [''z.md'', ''m.md'', ''y.md'', ''B.md'', ''a.md'']"
      and s: "compileStack s = compileStack freshState"
    from p consider "p = ''z.md''" | "p = ''m.md''" | "p = ''y.md''" | "p = ''B.md''" | "p = ''a.md''"
      by auto
    then show "\<exists>r s'. compileFile 1 ?X ?C p s = Some (Inr (r, s'))"
      using run [THEN compileFile_same_stack, OF s] by cases blast+
  qed
  then have ok: "\<forall>g\<in>set sortDemoBucket. \<forall>s. compileStack s = compileStack freshState \<longrightarrow>
            (\<exists>r s'. compileFile 1 ?X ?C (path g) s = Some (Inr (r, s')))"
    by simp
  have srt: "map path (sortSourceFiles ?X sortDemoBucket) = [''y.md'', ''z.md'', ''a.md'', ''B.md'', ''m.md'']"
    by code_simp
  have sp: "sep (config ?C) = [CHR 0x0A, CHR 0x0A]"
    by code_simp
  have len: "length sortDemoBucket = 5"
    by code_simp
  from tag_include_sort_rule [THEN conjunct1, rule_format, OF conjI [OF lc conjI [OF bucket(1)
      conjI [OF bucket(2) conjI [OF num ok]]]], where meta = "[]" and ctx = "rootContext ?C []"]
  obtain rendered st' where
    out: "renderNode (compileFile 1 ?X ?C) ?X ?C [] (rootContext ?C []) (TagInc ''x'') freshState
            = Some (Inr (join (sep (config ?C)) rendered, st'))"
    and lr: "length rendered = length sortDemoBucket"
    and each: "\<forall>i<length sortDemoBucket. \<forall>s. compileStack s = compileStack freshState \<longrightarrow>
              (\<exists>s'. compileFile 1 ?X ?C (path (sortSourceFiles ?X sortDemoBucket ! i)) s
                    = Some (Inr (rendered ! i, s')))"
    by blast
  have nth: "\<And>i. i < 5 \<Longrightarrow> path (sortSourceFiles ?X sortDemoBucket ! i)
      = [''y.md'', ''z.md'', ''a.md'', ''B.md'', ''m.md''] ! i"
    unfolding srt [symmetric] by (simp add: length_sortSourceFiles len)
  have r: "\<And>i. i < 5 \<Longrightarrow> \<exists>s'. compileFile 1 ?X ?C ([''y.md'', ''z.md'', ''a.md'', ''B.md'', ''m.md''] ! i) freshState
      = Some (Inr (rendered ! i, s'))"
    using each nth unfolding len by (metis (no_types))
  have "rendered ! 0 = ''one''" "rendered ! 1 = ''two''" "rendered ! 2 = ''five a''"
    "rendered ! 3 = ''five B''" "rendered ! 4 = ''none''"
    using r [of 0] r [of 1] r [of 2] r [of 3] r [of 4] run by (simp_all del: compileFile.simps)
  moreover have "rendered = map ((!) rendered) [0..<5]"
    using lr unfolding len by (metis map_nth)
  moreover have "[0..<5] = [0, 1, 2, 3, 4]"
    by code_simp
  ultimately have rd: "rendered = [''one'', ''two'', ''five a'', ''five B'', ''none'']"
    by simp
  have o: "renderNode (compileFile 1 ?X ?C) ?X ?C [] (rootContext ?C []) (TagInc ''x'') freshState
        = Some (Inr (''one'' @ [CHR 0x0A, CHR 0x0A] @ ''two'' @ [CHR 0x0A, CHR 0x0A] @ ''five a''
                       @ [CHR 0x0A, CHR 0x0A] @ ''five B'' @ [CHR 0x0A, CHR 0x0A] @ ''none'', st'))"
    unfolding out rd sp by simp
  have o3: "getProp (instrux ?z) ''order'' = Some (YNum (Finite 2))
      \<and> getProp (instrux ?m) ''order'' = None
      \<and> getProp (instrux ?y) ''order'' = Some (YNum (Finite 1))"
    by code_simp
  have "numericOrder ?a
      \<and> getProp (instrux ?B) ''order'' = getProp (instrux ?a) ''order''
      \<and> localeCompare ?X (path ?a) (path ?B) < 0"
    by code_simp
  with lc have tie: "consistent (localeCompare ?X) \<and> numericOrder ?a
      \<and> getProp (instrux ?B) ''order'' = getProp (instrux ?a) ''order''
      \<and> localeCompare ?X (path ?a) (path ?B) < 0"
    by (rule conjI)
  note three = tag_include_sort_rule [THEN conjunct2, THEN conjunct1, rule_format, OF o3, of ?X]
  note two = tag_include_sort_rule [THEN conjunct2, THEN conjunct2, rule_format, OF tie, THEN conjunct2]
  from o have "\<exists>st'. renderNode (compileFile 1 ?X ?C) ?X ?C [] (rootContext ?C []) (TagInc ''x'') freshState
        = Some (Inr (''one'' @ [CHR 0x0A, CHR 0x0A] @ ''two'' @ [CHR 0x0A, CHR 0x0A] @ ''five a''
                       @ [CHR 0x0A, CHR 0x0A] @ ''five B'' @ [CHR 0x0A, CHR 0x0A] @ ''none'', st'))"
    by blast
  with srt three two show ?thesis by (simp only: simp_thms)
qed

text \<open>
  The files \<open>B.md\<close> and \<open>a.md\<close> have the same order. By character code \<open>B.md\<close>
  is the smaller path, yet \<open>a.md\<close> is sorted first: \<^verbatim>\<open>localeCompare\<close> orders by
  the letter before the case. And three files with the orders 2, \<^verbatim>\<open>NaN\<close> and 1
  stay as they are, the order 2 before the order 1: \<^verbatim>\<open>NaN\<close> compares equal to
  both.
\<close>

theorem tag_include_sort_rule_counterexample:
  "lexCompare ''B.md'' ''a.md'' < 0
   \<and> getProp (instrux (demoFile ''x'' ''B.md'' (Some 5) ''five B'')) ''order''
       = getProp (instrux (demoFile ''x'' ''a.md'' (Some 5) ''five a'')) ''order''
   \<and> sortSourceFiles sortDemoExt
        [demoFile ''x'' ''B.md'' (Some 5) ''five B'', demoFile ''x'' ''a.md'' (Some 5) ''five a'']
      = [demoFile ''x'' ''a.md'' (Some 5) ''five a'', demoFile ''x'' ''B.md'' (Some 5) ''five B'']
   \<and> sortSourceFiles sortDemoExt
        [orderDemoFile ''a.md'' (YNum (Finite 2)), orderDemoFile ''b.md'' (YNum NaN),
         orderDemoFile ''c.md'' (YNum (Finite 1))]
      = [orderDemoFile ''a.md'' (YNum (Finite 2)), orderDemoFile ''b.md'' (YNum NaN),
         orderDemoFile ''c.md'' (YNum (Finite 1))]"
  by code_simp

text \<open>
  C7, amended. A file without an order field (absent or null) is sorted as
  order 999. In the sorted bucket of files with numeric orders, every
  occurrence of a file whose explicit order is below 999 comes before every
  occurrence of the file without order, and every occurrence of a file whose
  explicit order is above 999 comes after it; against a file whose explicit
  order is 999, the file that \<^verbatim>\<open>localeCompare\<close> puts first by its path comes
  first.
\<close>

theorem untagged_order_sorts_last:
  assumes lc: "consistent (localeCompare X)"
    and num: "\<forall>h\<in>set fs. numericOrder h"
    and f: "getProp (instrux f) ''order'' = Some (YNum (Finite n))"
    and g: "getProp (instrux g) ''order'' = None \<or> getProp (instrux g) ''order'' = Some YNull"
  shows "(n < 999 \<longrightarrow>
            (\<exists>pre post. sortSourceFiles X fs = pre @ post \<and> g \<notin> set pre \<and> f \<notin> set post))
       \<and> (999 < n \<longrightarrow>
            (\<exists>pre post. sortSourceFiles X fs = pre @ post \<and> f \<notin> set pre \<and> g \<notin> set post))
       \<and> (n = 999 \<and> localeCompare X (path f) (path g) < 0 \<longrightarrow>
            (\<exists>pre post. sortSourceFiles X fs = pre @ post \<and> g \<notin> set pre \<and> f \<notin> set post))
       \<and> (n = 999 \<and> localeCompare X (path g) (path f) < 0 \<longrightarrow>
            (\<exists>pre post. sortSourceFiles X fs = pre @ post \<and> f \<notin> set pre \<and> g \<notin> set post))"
proof -
  let ?R = "\<lambda>x y. orderKey x < orderKey y \<or>
            (orderKey x = orderKey y \<and> localeCompare X (path x) (path y) \<le> 0)"
  note srt = sortSourceFiles_sorted [OF lc num]
  have kf: "orderKey f = n" using f by (simp add: orderKey_def)
  have kg: "orderKey g = 999" using g by (auto simp: orderKey_def)
  have ne: "f \<noteq> g" using f g by auto
  have 1: "n < 999 \<longrightarrow>
            (\<exists>pre post. sortSourceFiles X fs = pre @ post \<and> g \<notin> set pre \<and> f \<notin> set post)"
  proof
    assume "n < 999"
    then have "\<not> ?R g f" by (simp add: kf kg)
    from sorted_wrt_split [OF srt this ne]
    show "\<exists>pre post. sortSourceFiles X fs = pre @ post \<and> g \<notin> set pre \<and> f \<notin> set post" .
  qed
  have 2: "999 < n \<longrightarrow>
            (\<exists>pre post. sortSourceFiles X fs = pre @ post \<and> f \<notin> set pre \<and> g \<notin> set post)"
  proof
    assume "999 < n"
    then have "\<not> ?R f g" by (simp add: kf kg)
    from sorted_wrt_split [OF srt this ne [symmetric]]
    show "\<exists>pre post. sortSourceFiles X fs = pre @ post \<and> f \<notin> set pre \<and> g \<notin> set post" .
  qed
  have 3: "n = 999 \<and> localeCompare X (path f) (path g) < 0 \<longrightarrow>
            (\<exists>pre post. sortSourceFiles X fs = pre @ post \<and> g \<notin> set pre \<and> f \<notin> set post)"
  proof
    assume h: "n = 999 \<and> localeCompare X (path f) (path g) < 0"
    then have "0 < localeCompare X (path g) (path f)" by (simp add: consistent_antisym [OF lc])
    then have "\<not> ?R g f" using h by (simp add: kf kg)
    from sorted_wrt_split [OF srt this ne]
    show "\<exists>pre post. sortSourceFiles X fs = pre @ post \<and> g \<notin> set pre \<and> f \<notin> set post" .
  qed
  have 4: "n = 999 \<and> localeCompare X (path g) (path f) < 0 \<longrightarrow>
            (\<exists>pre post. sortSourceFiles X fs = pre @ post \<and> f \<notin> set pre \<and> g \<notin> set post)"
  proof
    assume h: "n = 999 \<and> localeCompare X (path g) (path f) < 0"
    then have "0 < localeCompare X (path f) (path g)" by (simp add: consistent_antisym [OF lc])
    then have "\<not> ?R f g" using h by (simp add: kf kg)
    from sorted_wrt_split [OF srt this ne [symmetric]]
    show "\<exists>pre post. sortSourceFiles X fs = pre @ post \<and> f \<notin> set pre \<and> g \<notin> set post" .
  qed
  from 1 2 3 4 show ?thesis by blast
qed

text \<open>
  The bucket of \<open>w\<close> holds \<open>m.md\<close> without an order, \<open>k.md\<close> (order 1000),
  \<open>b.md\<close> (order 5), \<open>E.md\<close> and \<open>N.md\<close> (both order 999); it is sorted as
  \<open>b.md\<close>, \<open>E.md\<close>, \<open>m.md\<close>, \<open>N.md\<close>, \<open>k.md\<close>. So \<open>b.md\<close> comes before
  \<open>m.md\<close> and \<open>k.md\<close> after it, and of the files with order 999, \<open>E.md\<close> comes
  before \<open>m.md\<close> and \<open>N.md\<close> after it.
\<close>

theorem untagged_order_sorts_last_witness:
  "map path (sortSourceFiles sortDemoExt lastDemoBucket) = [''b.md'', ''E.md'', ''m.md'', ''N.md'', ''k.md'']
   \<and> (\<exists>pre post. sortSourceFiles sortDemoExt lastDemoBucket = pre @ post
         \<and> demoFile ''w'' ''m.md'' None ''none'' \<notin> set pre
         \<and> demoFile ''w'' ''b.md'' (Some 5) ''five'' \<notin> set post)
   \<and> (\<exists>pre post. sortSourceFiles sortDemoExt lastDemoBucket = pre @ post
         \<and> demoFile ''w'' ''k.md'' (Some 1000) ''thousand'' \<notin> set pre
         \<and> demoFile ''w'' ''m.md'' None ''none'' \<notin> set post)
   \<and> (\<exists>pre post. sortSourceFiles sortDemoExt lastDemoBucket = pre @ post
         \<and> demoFile ''w'' ''m.md'' None ''none'' \<notin> set pre
         \<and> demoFile ''w'' ''E.md'' (Some 999) ''E'' \<notin> set post)
   \<and> (\<exists>pre post. sortSourceFiles sortDemoExt lastDemoBucket = pre @ post
         \<and> demoFile ''w'' ''N.md'' (Some 999) ''N'' \<notin> set pre
         \<and> demoFile ''w'' ''m.md'' None ''none'' \<notin> set post)"
proof -
  let ?X = sortDemoExt
  let ?m = "demoFile ''w'' ''m.md'' None ''none''" and ?k = "demoFile ''w'' ''k.md'' (Some 1000) ''thousand''"
  let ?b = "demoFile ''w'' ''b.md'' (Some 5) ''five''" and ?E = "demoFile ''w'' ''E.md'' (Some 999) ''E''"
  let ?N = "demoFile ''w'' ''N.md'' (Some 999) ''N''"
  have lc: "consistent (localeCompare ?X)"
    by (simp add: sortDemoExt_def demoExt_def consistent_collate)
  have num: "\<forall>h\<in>set lastDemoBucket. numericOrder h"
    by code_simp
  have g: "getProp (instrux ?m) ''order'' = None \<or> getProp (instrux ?m) ''order'' = Some YNull"
    by code_simp
  have o: "getProp (instrux ?b) ''order'' = Some (YNum (Finite 5))"
    "getProp (instrux ?k) ''order'' = Some (YNum (Finite 1000))"
    "getProp (instrux ?E) ''order'' = Some (YNum (Finite 999))"
    "getProp (instrux ?N) ''order'' = Some (YNum (Finite 999))"
    by code_simp+
  have c: "localeCompare ?X (path ?E) (path ?m) < 0" "localeCompare ?X (path ?m) (path ?N) < 0"
    by code_simp+
  have srt: "map path (sortSourceFiles ?X lastDemoBucket) = [''b.md'', ''E.md'', ''m.md'', ''N.md'', ''k.md'']"
    by code_simp
  note below = untagged_order_sorts_last [OF lc num o(1) g, THEN conjunct1, rule_format]
  note above = untagged_order_sorts_last [OF lc num o(2) g, THEN conjunct2, THEN conjunct1, rule_format]
  note first = untagged_order_sorts_last [OF lc num o(3) g, THEN conjunct2, THEN conjunct2,
      THEN conjunct1, rule_format, OF conjI [OF refl c(1)]]
  note second = untagged_order_sorts_last [OF lc num o(4) g, THEN conjunct2, THEN conjunct2,
      THEN conjunct2, rule_format, OF conjI [OF refl c(2)]]
  have "(5::rat) < 999" "(999::rat) < 1000" by simp_all
  from srt below [OF this(1)] above [OF this(2)] first second show ?thesis
    by (simp only: simp_thms)
qed

text \<open>
  A file with the explicit order 1000 is sorted after a file without an order.
  And where a file of the bucket has the order \<^verbatim>\<open>NaN\<close>, which compares equal to
  every order, a file with the explicit order 5 can stay behind a file without
  an order.
\<close>

theorem untagged_order_sorts_last_counterexample:
  "getProp (instrux (demoFile ''w'' ''m.md'' None ''none'')) ''order'' = None
   \<and> sortSourceFiles sortDemoExt
       [demoFile ''w'' ''k.md'' (Some 1000) ''thousand'', demoFile ''w'' ''m.md'' None ''none'']
     = [demoFile ''w'' ''m.md'' None ''none'', demoFile ''w'' ''k.md'' (Some 1000) ''thousand'']
   \<and> sortSourceFiles sortDemoExt
       [demoFile ''w'' ''m.md'' None ''none'', orderDemoFile ''q.md'' (YNum NaN),
        demoFile ''w'' ''b.md'' (Some 5) ''five'']
     = [demoFile ''w'' ''m.md'' None ''none'', orderDemoFile ''q.md'' (YNum NaN),
        demoFile ''w'' ''b.md'' (Some 5) ''five'']"
  by code_simp

end
